theory Spec2Isabelle
  imports Main "HOL-Library.Word"
begin

section \<open>Machine integers and extents\<close>

text \<open>
  \<^verbatim>\<open>std::uint32_t\<close> is a 32-bit word: \<open>+\<close>, \<open>-\<close> and \<open>*\<close> wrap around.
  \<^verbatim>\<open>std::size_t\<close> is taken as a 64-bit word.
\<close>

type_synonym u32 = "32 word"
type_synonym size_t = "64 word"

text \<open>
  Modelled from the spec: \<^verbatim>\<open>alpaka::vec<3u>\<close> (its declaration is not among the sources).
  The spec's Extent and Coordinate: an ordered triple of non-negative integers, one per
  dimension; \<open>prodVec\<close> (the source's \<^verbatim>\<open>prod()\<close>) is the product of the components.
\<close>

record vec3 =
  vx :: nat
  vy :: nat
  vz :: nat

definition prodVec :: "vec3 \<Rightarrow> nat" where
  "prodVec v = vx v * vy v * vz v"

text \<open>
  \<^verbatim>\<open>alpaka::WorkSize(v3uiSizeGridBlocks, v3uiSizeBlockKernels)\<close>, the spec's WorkDescriptor.
\<close>

record WorkSize =
  gridBlocks :: vec3
  blockKernels :: vec3

text \<open>The spec's IndexContext: the position of one executing unit.\<close>

record IndexContext =
  blockCoordinate :: vec3
  unitCoordinate :: vec3

text \<open>
  Modelled from the spec: linearization of a coordinate within an extent (the library's
  \<^verbatim>\<open>getIdx<..., Linear>\<close> is not among the sources). Row-major with dimension 0 varying
  fastest.
\<close>

definition linearize :: "vec3 \<Rightarrow> vec3 \<Rightarrow> nat" where
  "linearize ext c = vx c + vy c * vx ext + vz c * (vx ext * vy ext)"

definition inExtent :: "vec3 \<Rightarrow> vec3 \<Rightarrow> bool" where
  "inExtent ext c \<longleftrightarrow> vx c < vx ext \<and> vy c < vy ext \<and> vz c < vz ext"

text \<open>
  Modelled from the spec: the enumeration of all coordinates of an extent (the Executor's
  loops over blocks and over the units of a block are not among the sources).
\<close>

definition coordsRow :: "vec3 \<Rightarrow> nat \<Rightarrow> nat \<Rightarrow> vec3 list" where
  "coordsRow ext z y = map (\<lambda>x. \<lparr>vx = x, vy = y, vz = z\<rparr>) [0..<vx ext]"

definition coordsPlane :: "vec3 \<Rightarrow> nat \<Rightarrow> vec3 list" where
  "coordsPlane ext z = concat (map (coordsRow ext z) [0..<vy ext])"

definition coords :: "vec3 \<Rightarrow> vec3 list" where
  "coords ext = concat (map (coordsPlane ext) [0..<vz ext])"

text \<open>
  Modelled from the spec: the ambient size and index queries a kernel reads. The kernel
  stores each result in a \<^verbatim>\<open>std::uint32_t\<close> (lines 60, 70 and 111), the host in a
  \<^verbatim>\<open>std::size_t\<close> (lines 179 and 180).
\<close>

definition getSize_Block_Kernels_Linear :: "WorkSize \<Rightarrow> nat" where
  "getSize_Block_Kernels_Linear ws = prodVec (blockKernels ws)"

definition getSize_Grid_Blocks_Linear :: "WorkSize \<Rightarrow> nat" where
  "getSize_Grid_Blocks_Linear ws = prodVec (gridBlocks ws)"

definition getIdx_Block_Kernels_Linear :: "WorkSize \<Rightarrow> IndexContext \<Rightarrow> nat" where
  "getIdx_Block_Kernels_Linear ws c = linearize (blockKernels ws) (unitCoordinate c)"

definition getIdx_Grid_Blocks_Linear :: "WorkSize \<Rightarrow> IndexContext \<Rightarrow> nat" where
  "getIdx_Grid_Blocks_Linear ws c = linearize (gridBlocks ws) (blockCoordinate c)"

section \<open>The example kernel: local computations\<close>

text \<open>
  Lines 74 to 78: \<^verbatim>\<open>iSum1(idx+1); for(i(0); i<W; ++i) iSum1 += i;\<close> with \<open>W\<close> the value of
  \<^verbatim>\<open>TuiNumUselessWork\<close> converted to \<^verbatim>\<open>std::uint32_t\<close> by the comparison.
\<close>

function loop_iSum1 :: "u32 \<Rightarrow> u32 \<Rightarrow> u32 \<Rightarrow> u32" where
  "loop_iSum1 W i s = (if i < W then loop_iSum1 W (i + 1) (s + i) else s)"
  by pat_completeness auto
termination
proof (relation "measure (\<lambda>(W, i, s). unat W - unat i)")
  show "wf (measure (\<lambda>(W, i, s). unat W - unat i))" by simp
next
  fix W i s :: u32
  assume "i < W"
  then have lt: "unat i < unat W" by (simp add: word_less_nat_alt)
  moreover have "unat W < 2 ^ LENGTH(32)" by (rule unsigned_less)
  ultimately have "unat i + 1 < 2 ^ LENGTH(32)" by linarith
  then have "unat (i + 1) = Suc (unat i)" by (simp add: unat_word_ariths)
  with lt show "((W, i + 1, s + i), (W, i, s)) \<in> measure (\<lambda>(W, i, s). unat W - unat i)"
    by simp
qed

definition iSum1 :: "u32 \<Rightarrow> u32 \<Rightarrow> u32" where
  "iSum1 W uiIdxBlockKernelsLin = loop_iSum1 W 0 (uiIdxBlockKernelsLin + 1)"

text \<open>Lines 86 to 90: \<^verbatim>\<open>iSum2(idx); for(i(0); i<W; ++i) iSum2 -= i;\<close>\<close>

function loop_iSum2 :: "u32 \<Rightarrow> u32 \<Rightarrow> u32 \<Rightarrow> u32" where
  "loop_iSum2 W i s = (if i < W then loop_iSum2 W (i + 1) (s - i) else s)"
  by pat_completeness auto
termination
proof (relation "measure (\<lambda>(W, i, s). unat W - unat i)")
  show "wf (measure (\<lambda>(W, i, s). unat W - unat i))" by simp
next
  fix W i s :: u32
  assume "i < W"
  then have lt: "unat i < unat W" by (simp add: word_less_nat_alt)
  moreover have "unat W < 2 ^ LENGTH(32)" by (rule unsigned_less)
  ultimately have "unat i + 1 < 2 ^ LENGTH(32)" by linarith
  then have "unat (i + 1) = Suc (unat i)" by (simp add: unat_word_ariths)
  with lt show "((W, i + 1, s - i), (W, i, s)) \<in> measure (\<lambda>(W, i, s). unat W - unat i)"
    by simp
qed

definition iSum2 :: "u32 \<Rightarrow> u32 \<Rightarrow> u32" where
  "iSum2 W uiIdxBlockKernelsLin = loop_iSum2 W 0 uiIdxBlockKernelsLin"

text \<open>The sum \<open>0 + 1 + ... + (W - 1)\<close> as the loops accumulate it, modulo \<open>2 ^ 32\<close>.\<close>

definition uselessSum :: "u32 \<Rightarrow> u32" where
  "uselessSum W = of_nat (\<Sum>k = 0..<unat W. k)"

section \<open>The example kernel: one unit's steps\<close>

text \<open>
  The class \<^verbatim>\<open>ExampleAcceleratedKernel<TuiNumUselessWork, TAcc>\<close>: the template parameter's
  value and the member \<^verbatim>\<open>m_uiMult\<close>.
\<close>

record ExampleAcceleratedKernel =
  TuiNumUselessWork :: u32
  m_uiMult :: u32

text \<open>
  The places of \<^verbatim>\<open>operator()\<close> at which one unit can be between two accesses to memory.
  A compound assignment to shared memory is a read followed by a write; the three
  \<^verbatim>\<open>syncBlockKernels()\<close> calls are places of their own.
\<close>

datatype Label =
  L_Fill | L_Sync1 | L_Load | L_Store | L_Sync2 | L_AtomicArg | L_Atomic | L_Sync3
  | L_Master | L_Write | L_Done

fun labelRank :: "Label \<Rightarrow> nat" where
  "labelRank L_Fill = 0"
| "labelRank L_Sync1 = 1"
| "labelRank L_Load = 2"
| "labelRank L_Store = 3"
| "labelRank L_Sync2 = 4"
| "labelRank L_AtomicArg = 5"
| "labelRank L_Atomic = 6"
| "labelRank L_Sync3 = 7"
| "labelRank L_Master = 8"
| "labelRank L_Write = 9"
| "labelRank L_Done = 10"

fun isBarrier :: "Label \<Rightarrow> bool" where
  "isBarrier L_Sync1 = True"
| "isBarrier L_Sync2 = True"
| "isBarrier L_Sync3 = True"
| "isBarrier _ = False"

text \<open>
  One executing unit: its index context, the place it is at and the value it has read
  from memory and not yet used.
\<close>

record Unit =
  idxCtx :: IndexContext
  pc :: Label
  reg :: u32

text \<open>
  The kernel accesses \<^verbatim>\<open>pBlockShared\<close> and \<^verbatim>\<open>puiBlockRetVals\<close> through raw pointers,
  without a check (lines 79, 92, 101 and 113): an access outside the region a pointer
  refers to is undefined in the source and raises nothing there. Here it ends the unit
  with a \<open>Fault\<close>, so that every result a run gives is one of in-range accesses only.
\<close>

datatype Fault = SharedOutOfRange nat | GlobalOutOfRange nat

text \<open>
  Modelled from the spec: \<^verbatim>\<open>atomicOp<alpaka::Add>\<close> (the library's atomic operations are not
  among the sources): an indivisible read-modify-write of one location, returning the
  value read.
\<close>

definition atomicOp_Add :: "u32 list \<Rightarrow> nat \<Rightarrow> u32 \<Rightarrow> (u32 \<times> u32 list) option" where
  "atomicOp_Add mem i v =
     (if i < length mem then Some (mem ! i, mem[i := mem ! i + v]) else None)"

text \<open>
  \<^verbatim>\<open>ExampleAcceleratedKernel::operator()(puiBlockRetVals, uiMult2)\<close>, lines 57 to 115, one
  step of one unit on the block's extern shared memory \<open>sh\<close> and the global buffer \<open>gl\<close>
  that \<^verbatim>\<open>puiBlockRetVals\<close> points to. At a \<^verbatim>\<open>syncBlockKernels()\<close> the step only moves on:
  whether the unit may pass is the backend's decision.
\<close>

definition kernelStep ::
  "ExampleAcceleratedKernel \<Rightarrow> WorkSize \<Rightarrow> u32 \<Rightarrow> Unit \<Rightarrow> u32 list \<Rightarrow> u32 list
    \<Rightarrow> Fault + (Unit \<times> u32 list \<times> u32 list)" where
  "kernelStep k ws uiMult2 u sh gl =
     (let uiNumKernelsInBlock = (of_nat (getSize_Block_Kernels_Linear ws) :: u32);
          uiIdxBlockKernelsLin = (of_nat (getIdx_Block_Kernels_Linear ws (idxCtx u)) :: u32);
          mirror = unat ((uiNumKernelsInBlock - 1) - uiIdxBlockKernelsLin)
      in case pc u of
        L_Fill \<Rightarrow>
          if unat uiIdxBlockKernelsLin < length sh
          then Inr (u\<lparr>pc := L_Sync1\<rparr>,
                    sh[unat uiIdxBlockKernelsLin :=
                         iSum1 (TuiNumUselessWork k) uiIdxBlockKernelsLin], gl)
          else Inl (SharedOutOfRange (unat uiIdxBlockKernelsLin))
      | L_Sync1 \<Rightarrow> Inr (u\<lparr>pc := L_Load\<rparr>, sh, gl)
      | L_Load \<Rightarrow>
          if mirror < length sh
          then Inr (u\<lparr>pc := L_Store, reg := sh ! mirror\<rparr>, sh, gl)
          else Inl (SharedOutOfRange mirror)
      | L_Store \<Rightarrow>
          if mirror < length sh
          then Inr (u\<lparr>pc := L_Sync2\<rparr>,
                    sh[mirror := reg u + iSum2 (TuiNumUselessWork k) uiIdxBlockKernelsLin], gl)
          else Inl (SharedOutOfRange mirror)
      | L_Sync2 \<Rightarrow> Inr (u\<lparr>pc := L_AtomicArg\<rparr>, sh, gl)
      | L_AtomicArg \<Rightarrow>
          if uiIdxBlockKernelsLin > 0
          then (if unat uiIdxBlockKernelsLin < length sh
                then Inr (u\<lparr>pc := L_Atomic, reg := sh ! unat uiIdxBlockKernelsLin\<rparr>, sh, gl)
                else Inl (SharedOutOfRange (unat uiIdxBlockKernelsLin)))
          else Inr (u\<lparr>pc := L_Sync3\<rparr>, sh, gl)
      | L_Atomic \<Rightarrow>
          (case atomicOp_Add sh 0 (reg u) of
             None \<Rightarrow> Inl (SharedOutOfRange 0)
           | Some (old, sh') \<Rightarrow> Inr (u\<lparr>pc := L_Sync3\<rparr>, sh', gl))
      | L_Sync3 \<Rightarrow> Inr (u\<lparr>pc := L_Master\<rparr>, sh, gl)
      | L_Master \<Rightarrow>
          if uiIdxBlockKernelsLin = 0
          then (if 0 < length sh
                then Inr (u\<lparr>pc := L_Write, reg := sh ! 0\<rparr>, sh, gl)
                else Inl (SharedOutOfRange 0))
          else Inr (u\<lparr>pc := L_Done\<rparr>, sh, gl)
      | L_Write \<Rightarrow>
          (let bId = (of_nat (getIdx_Grid_Blocks_Linear ws (idxCtx u)) :: u32)
           in if unat bId < length gl
              then Inr (u\<lparr>pc := L_Done\<rparr>, sh, gl[unat bId := reg u * m_uiMult k * uiMult2])
              else Inl (GlobalOutOfRange (unat bId)))
      | L_Done \<Rightarrow> Inr (u, sh, gl))"

text \<open>
  \<^verbatim>\<open>BlockSharedExternMemSizeBytes<ExampleAcceleratedKernel>::getBlockSharedExternMemSizeBytes\<close>,
  lines 132 to 136. The product is computed in \<^verbatim>\<open>std::size_t\<close>; \<open>sizeofUint32\<close> is
  \<^verbatim>\<open>sizeof(std::uint32_t)\<close>. The further arguments are of any type and are not looked at.
\<close>

definition sizeofUint32 :: nat where
  "sizeofUint32 = 4"

definition getBlockSharedExternMemSizeBytes :: "vec3 \<Rightarrow> 'args \<Rightarrow> size_t" where
  "getBlockSharedExternMemSizeBytes v3uiSizeBlockKernels args =
     of_nat (prodVec v3uiSizeBlockKernels) * of_nat sizeofUint32"

section \<open>The executor and its backends\<close>

text \<open>The accelerators \<^verbatim>\<open>main\<close> names, lines 259 to 288.\<close>

datatype Backend = AccSerial | AccThreads | AccFibers | AccOpenMp | AccCuda

text \<open>The spec's error kinds (section 7).\<close>

datatype Error =
  InvalidArgument | OutOfMemory | DeviceNotFound
  | KernelExecutionFailed vec3 vec3 Fault | Deadlock

record Block =
  shared :: "u32 list"
  units :: "Unit list"

record Grid =
  global :: "u32 list"
  blocks :: "Block list"

text \<open>
  Modelled from the spec: the barrier of a Backend Adapter (the library's
  \<^verbatim>\<open>syncBlockKernels\<close> is not among the sources). A unit at a barrier passes once every unit
  of its block has reached that barrier. The sequential variant unrolls the units one at
  a time and its barrier is a no-op.
\<close>

definition barrierOpen :: "Backend \<Rightarrow> Block \<Rightarrow> Label \<Rightarrow> bool" where
  "barrierOpen backend blk l \<longleftrightarrow>
     backend = AccSerial \<or> list_all (\<lambda>u. labelRank l \<le> labelRank (pc u)) (units blk)"

text \<open>
  Modelled from the spec: a Backend Adapter advancing one unit of a block (not among the
  sources). Unit \<open>i\<close> takes its next step unless it waits at a closed barrier; a fault of
  the kernel body is reported with the coordinate of the failing unit.
\<close>

definition stepBlock ::
  "Backend \<Rightarrow> ExampleAcceleratedKernel \<Rightarrow> WorkSize \<Rightarrow> u32 \<Rightarrow> Block \<Rightarrow> u32 list \<Rightarrow> nat
    \<Rightarrow> Error + (Block \<times> u32 list)" where
  "stepBlock backend k ws uiMult2 blk gl i =
     (if i < length (units blk)
      then (let u = units blk ! i in
            if isBarrier (pc u) \<and> \<not> barrierOpen backend blk (pc u) then Inr (blk, gl)
            else (case kernelStep k ws uiMult2 u (shared blk) gl of
                    Inl f \<Rightarrow>
                      Inl (KernelExecutionFailed (blockCoordinate (idxCtx u))
                             (unitCoordinate (idxCtx u)) f)
                  | Inr (u', sh', gl') \<Rightarrow>
                      Inr (\<lparr>shared = sh', units = (units blk)[i := u']\<rparr>, gl')))
      else Inr (blk, gl))"

text \<open>
  Modelled from the spec: one scheduling decision of the Executor (not among the
  sources): unit \<open>i\<close> of block \<open>b\<close> is given the processor. Blocks have their own shared
  regions and share the global buffer.
\<close>

definition stepUnit ::
  "Backend \<Rightarrow> ExampleAcceleratedKernel \<Rightarrow> WorkSize \<Rightarrow> u32 \<Rightarrow> Grid \<Rightarrow> nat \<times> nat
    \<Rightarrow> Error + Grid" where
  "stepUnit backend k ws uiMult2 g bi =
     (let b = fst bi; i = snd bi in
      if b < length (blocks g)
      then (case stepBlock backend k ws uiMult2 (blocks g ! b) (global g) i of
              Inl e \<Rightarrow> Inl e
            | Inr (blk', gl') \<Rightarrow> Inr \<lparr>global = gl', blocks = (blocks g)[b := blk']\<rparr>)
      else Inr g)"

text \<open>The units of one block advanced in the order \<open>sched\<close>.\<close>

fun runBlock ::
  "Backend \<Rightarrow> ExampleAcceleratedKernel \<Rightarrow> WorkSize \<Rightarrow> u32 \<Rightarrow> nat list \<Rightarrow> Block \<Rightarrow> u32 list
    \<Rightarrow> Error + (Block \<times> u32 list)" where
  "runBlock backend k ws uiMult2 [] blk gl = Inr (blk, gl)"
| "runBlock backend k ws uiMult2 (i # sched) blk gl =
     (case stepBlock backend k ws uiMult2 blk gl i of
        Inl e \<Rightarrow> Inl e
      | Inr (blk', gl') \<Rightarrow> runBlock backend k ws uiMult2 sched blk' gl')"

text \<open>The units of the whole grid advanced in the order \<open>sched\<close>.\<close>

fun runSchedule ::
  "Backend \<Rightarrow> ExampleAcceleratedKernel \<Rightarrow> WorkSize \<Rightarrow> u32 \<Rightarrow> (nat \<times> nat) list \<Rightarrow> Grid
    \<Rightarrow> Error + Grid" where
  "runSchedule backend k ws uiMult2 [] g = Inr g"
| "runSchedule backend k ws uiMult2 (bi # sched) g =
     (case stepUnit backend k ws uiMult2 g bi of
        Inl e \<Rightarrow> Inl e
      | Inr g' \<Rightarrow> runSchedule backend k ws uiMult2 sched g')"

text \<open>
  The order of the sequential variant: block after block, unit after unit, each unit run
  through all ten steps of the body before the next one starts.
\<close>

definition serialSchedule :: "WorkSize \<Rightarrow> (nat \<times> nat) list" where
  "serialSchedule ws =
     concat (map (\<lambda>b. concat (map (\<lambda>i. replicate 10 (b, i))
                                  [0..<getSize_Block_Kernels_Linear ws]))
                 [0..<getSize_Grid_Blocks_Linear ws])"

definition initUnit :: "vec3 \<Rightarrow> vec3 \<Rightarrow> Unit" where
  "initUnit bc uc =
     \<lparr>idxCtx = \<lparr>blockCoordinate = bc, unitCoordinate = uc\<rparr>, pc = L_Fill, reg = 0\<rparr>"

text \<open>
  A block's SharedRegion has undefined content before the first write: \<open>uninit\<close> gives
  the content found in each cell of each block.
\<close>

definition initBlock :: "WorkSize \<Rightarrow> nat \<Rightarrow> (vec3 \<Rightarrow> nat \<Rightarrow> u32) \<Rightarrow> vec3 \<Rightarrow> Block" where
  "initBlock ws cells uninit bc =
     \<lparr>shared = map (uninit bc) [0..<cells],
      units = map (initUnit bc) (coords (blockKernels ws))\<rparr>"

definition initGrid :: "WorkSize \<Rightarrow> nat \<Rightarrow> (vec3 \<Rightarrow> nat \<Rightarrow> u32) \<Rightarrow> u32 list \<Rightarrow> Grid" where
  "initGrid ws cells uninit gl =
     \<lparr>global = gl, blocks = map (initBlock ws cells uninit) (coords (gridBlocks ws))\<rparr>"

definition allDone :: "Grid \<Rightarrow> bool" where
  "allDone g \<longleftrightarrow> list_all (\<lambda>blk. list_all (\<lambda>u. pc u = L_Done) (units blk)) (blocks g)"

text \<open>
  Modelled from the spec: the Executor's \<open>execute\<close> (the library's kernel executors are not
  among the sources). The size of the extern shared region is queried once, from the
  kernel's trait; every block gets a region of that size and one unit per coordinate of
  the block extent. \<open>sched\<close> is the order in which the backend advances the units; the
  sequential variant has its own. The call returns once every unit has retired: \<open>None\<close>
  is a call that has not returned under the given schedule.
\<close>

definition execute ::
  "Backend \<Rightarrow> ExampleAcceleratedKernel \<Rightarrow> WorkSize \<Rightarrow> u32 list \<Rightarrow> u32
    \<Rightarrow> (vec3 \<Rightarrow> nat \<Rightarrow> u32) \<Rightarrow> (nat \<times> nat) list \<Rightarrow> (Error + u32 list) option" where
  "execute backend k ws puiBlockRetVals uiMult2 uninit sched =
     (let sizeBytes = getBlockSharedExternMemSizeBytes (blockKernels ws) (puiBlockRetVals, uiMult2);
          cells = unat sizeBytes div sizeofUint32;
          g0 = initGrid ws cells uninit puiBlockRetVals;
          order = (if backend = AccSerial then serialSchedule ws else sched)
      in case runSchedule backend k ws uiMult2 order g0 of
           Inl e \<Rightarrow> Some (Inl e)
         | Inr g \<Rightarrow> if allDone g then Some (Inr (global g)) else None)"

section \<open>Memory spaces\<close>

text \<open>
  Modelled from the spec: the MemorySpace Manager (the library's \<^verbatim>\<open>memAlloc\<close>,
  \<^verbatim>\<open>memCopy\<close> and \<^verbatim>\<open>memFree\<close> are not among the sources). A buffer carries its space, its
  size in bytes and its content, a list of cells of \<open>elemSize\<close> bytes each (bytes
  themselves when \<open>elemSize = 1\<close>). Buffers are values: a copy never aliases.
\<close>

datatype MemorySpace = MemorySpaceHost | MemorySpaceAcc

record 'a MemoryBuffer =
  spaceTag :: MemorySpace
  sizeBytes :: nat
  storage :: "'a list"

text \<open>
  \<open>allocate\<close>: \<open>avail\<close> is the number of bytes the space still has, \<open>fresh\<close> the
  content found in the new buffer. An exhausted space fails with \<open>OutOfMemory\<close>.
\<close>

definition memAlloc ::
  "MemorySpace \<Rightarrow> nat \<Rightarrow> nat \<Rightarrow> (nat \<Rightarrow> 'a) \<Rightarrow> nat \<Rightarrow> Error + 'a MemoryBuffer" where
  "memAlloc space elemSize avail fresh uiSizeBytes =
     (if avail < uiSizeBytes then Inl OutOfMemory
      else Inr \<lparr>spaceTag = space, sizeBytes = uiSizeBytes,
               storage = map fresh [0..<uiSizeBytes div elemSize]\<rparr>)"

text \<open>
  \<open>copy\<close>: a size that does not match the capacity of a buffer fails with
  \<open>InvalidArgument\<close>; otherwise the destination holds the content of the source.
\<close>

definition memCopy ::
  "'a MemoryBuffer \<Rightarrow> 'a MemoryBuffer \<Rightarrow> nat \<Rightarrow> Error + 'a MemoryBuffer" where
  "memCopy dst src uiSizeBytes =
     (if uiSizeBytes \<noteq> sizeBytes dst \<or> uiSizeBytes \<noteq> sizeBytes src then Inl InvalidArgument
      else Inr (dst\<lparr>storage := storage src\<rparr>))"

text \<open>\<open>free\<close>: the bytes given back to the space.\<close>

definition memFree :: "'a MemoryBuffer \<Rightarrow> nat" where
  "memFree buf = sizeBytes buf"

section \<open>The host side: profiling and checking\<close>

text \<open>
  What the host finds when it runs the kernel on one accelerator: the bytes its memory
  space still has, the content of fresh global and shared memory, and the order in which
  the backend advances the units.
\<close>

record AccEnv =
  availBytes :: nat
  freshGlobal :: "nat \<Rightarrow> u32"
  freshShared :: "vec3 \<Rightarrow> nat \<Rightarrow> u32"
  schedule :: "(nat \<times> nat) list"

record ProfileResult =
  vuiBlockRetVals :: "u32 list"
  bResultCorrect :: bool
  mismatches :: "nat list"

text \<open>Lines 203 to 210: one round of the checking loop.\<close>

definition checkStep :: "u32 \<Rightarrow> u32 list \<Rightarrow> nat \<Rightarrow> bool \<times> nat list \<Rightarrow> bool \<times> nat list" where
  "checkStep uiCorrectResult v i st =
     (if v ! i \<noteq> uiCorrectResult then (False, snd st @ [i]) else st)"

text \<open>
  \<^verbatim>\<open>profileAcceleratedExampleKernel<TAcc, TuiNumUselessWork>(workSize, uiMult2)\<close>, lines 168
  to 216 (\<^verbatim>\<open>profileAcceleratedKernel\<close>, which only adds the timing, is inlined). An error
  of the library leaves the function; \<open>None\<close> is a call that has not returned.
\<close>

definition profileAcceleratedExampleKernel ::
  "Backend \<Rightarrow> u32 \<Rightarrow> AccEnv \<Rightarrow> WorkSize \<Rightarrow> u32 \<Rightarrow> (Error + ProfileResult) option" where
  "profileAcceleratedExampleKernel backend W env workSize uiMult2 =
     (let uiNumBlocksInGrid = (of_nat (getSize_Grid_Blocks_Linear workSize) :: size_t);
          uiNumKernelsInBlock = (of_nat (getSize_Block_Kernels_Linear workSize) :: size_t);
          host = \<lparr>spaceTag = MemorySpaceHost,
                  sizeBytes = unat uiNumBlocksInGrid * sizeofUint32,
                  storage = replicate (unat uiNumBlocksInGrid) (0 :: u32)\<rparr>;
          uiSizeBytes = unat (uiNumBlocksInGrid * of_nat sizeofUint32)
      in case memAlloc MemorySpaceAcc sizeofUint32 (availBytes env) (freshGlobal env) uiSizeBytes of
           Inl e \<Rightarrow> Some (Inl e)
         | Inr pBlockRetVals0 \<Rightarrow>
        (case memCopy pBlockRetVals0 host uiSizeBytes of
           Inl e \<Rightarrow> Some (Inl e)
         | Inr pBlockRetVals \<Rightarrow>
        (case execute backend \<lparr>TuiNumUselessWork = W, m_uiMult = 42\<rparr> workSize
                (storage pBlockRetVals) uiMult2 (freshShared env) (schedule env) of
           None \<Rightarrow> None
         | Some (Inl e) \<Rightarrow> Some (Inl e)
         | Some (Inr written) \<Rightarrow>
        (case memCopy host (pBlockRetVals\<lparr>storage := written\<rparr>) uiSizeBytes of
           Inl e \<Rightarrow> Some (Inl e)
         | Inr host' \<Rightarrow>
        (let uiCorrectResult =
               (ucast (uiNumKernelsInBlock * uiNumKernelsInBlock) :: u32) * 42 * uiMult2;
             chk = fold (checkStep uiCorrectResult (storage host'))
                     [0..<unat uiNumBlocksInGrid] (True, [])
         in Some (Inr \<lparr>vuiBlockRetVals = storage host', bResultCorrect = fst chk,
                        mismatches = snd chk\<rparr>))))))"

text \<open>
  The build of \<^verbatim>\<open>main\<close>: which of the \<^verbatim>\<open>ALPAKA_..._ENABLED\<close> macros are defined.
\<close>

record Config =
  serialEnabled :: bool
  threadsEnabled :: bool
  fibersEnabled :: bool
  openMpEnabled :: bool
  cudaEnabled :: bool

text \<open>Line 239 and lines 242 to 252: the grid and block extents \<^verbatim>\<open>main\<close> sets.\<close>

definition v3uiSizeGridBlocks :: vec3 where
  "v3uiSizeGridBlocks = \<lparr>vx = 16, vy = 8, vz = 4\<rparr>"

definition v3uiSizeBlockKernels :: "Config \<Rightarrow> vec3" where
  "v3uiSizeBlockKernels cfg =
     (if serialEnabled cfg then \<lparr>vx = 1, vy = 1, vz = 1\<rparr>
      else if openMpEnabled cfg then \<lparr>vx = 4, vy = 4, vz = 2\<rparr>
      else if cudaEnabled cfg \<or> threadsEnabled cfg \<or> fibersEnabled cfg
           then \<lparr>vx = 16, vy = 16, vz = 2\<rparr>
      else \<lparr>vx = 1, vy = 1, vz = 1\<rparr>)"

definition mainWorkSize :: "Config \<Rightarrow> WorkSize" where
  "mainWorkSize cfg =
     \<lparr>gridBlocks = v3uiSizeGridBlocks, blockKernels = v3uiSizeBlockKernels cfg\<rparr>"

text \<open>Lines 259 to 288: the accelerators profiled, in this order.\<close>

definition enabledBackends :: "Config \<Rightarrow> Backend list" where
  "enabledBackends cfg =
     (if serialEnabled cfg then [AccSerial] else []) @
     (if threadsEnabled cfg then [AccThreads] else []) @
     (if fibersEnabled cfg then [AccFibers] else []) @
     (if openMpEnabled cfg then [AccOpenMp] else []) @
     (if cudaEnabled cfg then [AccCuda] else [])"

text \<open>
  What \<^verbatim>\<open>main\<close> can catch: an exception derived from \<^verbatim>\<open>std::exception\<close>, with its
  \<^verbatim>\<open>what()\<close> text, or anything else.
\<close>

datatype Exception = StdException string | OtherException

text \<open>
  The surroundings of \<^verbatim>\<open>main\<close>: whether \<^verbatim>\<open>logEnabledAccelerators\<close> and
  \<^verbatim>\<open>initAccelerators\<close> throw, the exception an error of the library is thrown as, and what
  each accelerator finds.
\<close>

record MainEnv =
  logEnabledAccelerators :: "Exception option"
  initAccelerators :: "Exception option"
  thrownAs :: "Error \<Rightarrow> Exception"
  accEnv :: "Backend \<Rightarrow> AccEnv"

record MainResult =
  returnCode :: int
  cerr :: "string list"
  profiled :: "(Backend \<times> ProfileResult) list"

text \<open>
  The profiling calls of lines 259 to 288, one after the other: the results of the calls
  that returned, and the exception that ended the sequence, if any.
\<close>

fun profileAll ::
  "MainEnv \<Rightarrow> WorkSize \<Rightarrow> u32 \<Rightarrow> Backend list
    \<Rightarrow> ((Backend \<times> ProfileResult) list \<times> Exception option) option" where
  "profileAll env workSize uiMult2 [] = Some ([], None)"
| "profileAll env workSize uiMult2 (acc # accs) =
     (case profileAcceleratedExampleKernel acc 100 (accEnv env acc) workSize uiMult2 of
        None \<Rightarrow> None
      | Some (Inl e) \<Rightarrow> Some ([], Some (thrownAs env e))
      | Some (Inr r) \<Rightarrow>
          (case profileAll env workSize uiMult2 accs of
             None \<Rightarrow> None
           | Some (rs, x) \<Rightarrow> Some ((acc, r) # rs, x)))"

text \<open>Lines 293 to 302: the two handlers.\<close>

definition handler :: "(Backend \<times> ProfileResult) list \<Rightarrow> Exception \<Rightarrow> MainResult" where
  "handler rs e =
     \<lparr>returnCode = 1,
      cerr = [case e of StdException what \<Rightarrow> what | OtherException \<Rightarrow> ''Unknown Exception''],
      profiled = rs\<rparr>"

text \<open>\<^verbatim>\<open>main\<close>, lines 220 to 303.\<close>

definition main :: "Config \<Rightarrow> MainEnv \<Rightarrow> MainResult option" where
  "main cfg env =
     (case logEnabledAccelerators env of
        Some e \<Rightarrow> Some (handler [] e)
      | None \<Rightarrow>
     (case initAccelerators env of
        Some e \<Rightarrow> Some (handler [] e)
      | None \<Rightarrow>
     (case profileAll env (mainWorkSize cfg) 5 (enabledBackends cfg) of
        None \<Rightarrow> None
      | Some (rs, Some e) \<Rightarrow> Some (handler rs e)
      | Some (rs, None) \<Rightarrow> Some \<lparr>returnCode = 0, cerr = [], profiled = rs\<rparr>)))"

section \<open>Device properties\<close>

text \<open>\<^verbatim>\<open>alpaka::dev::DevProps\<close>, DevProps.hpp lines 40 to 50.\<close>

record DevProps =
  m_sName :: string
  m_uiMultiProcessorCount :: size_t
  m_uiBlockKernelsCountMax :: size_t
  m_v3uiBlockKernelsExtentsMax :: vec3
  m_v3uiGridBlocksExtentsMax :: vec3
  m_uiGlobalMemSizeBytes :: size_t

text \<open>
  Modelled from the spec: the Device Registry (not among the sources). It holds the
  properties captured at enumeration time and the device selected; \<open>selectDevice\<close> fails
  with \<open>DeviceNotFound\<close> for an id that names no device.
\<close>

record Registry =
  devices :: "DevProps list"
  selected :: "nat option"

definition enumerateDevices :: "Registry \<Rightarrow> DevProps list" where
  "enumerateDevices r = devices r"

definition selectDevice :: "Registry \<Rightarrow> nat \<Rightarrow> Error + Registry" where
  "selectDevice r devId =
     (if devId < length (devices r) then Inr (r\<lparr>selected := Some devId\<rparr>)
      else Inl DeviceNotFound)"

section \<open>Predicates used in the proofs\<close>

text \<open>
  A unit whose index context linearizes to unit \<open>i\<close> of block \<open>b\<close>, in a block of \<open>N\<close>
  units, all three representable in 32 bits.
\<close>

definition unitAt :: "WorkSize \<Rightarrow> nat \<Rightarrow> nat \<Rightarrow> nat \<Rightarrow> Unit \<Rightarrow> bool" where
  "unitAt ws N b i u \<longleftrightarrow>
     getSize_Block_Kernels_Linear ws = N \<and> N < 2 ^ 32 \<and> i < N \<and> b < 2 ^ 32 \<and>
     getIdx_Block_Kernels_Linear ws (idxCtx u) = i \<and>
     getIdx_Grid_Blocks_Linear ws (idxCtx u) = b"

definition rankOf :: "Unit list \<Rightarrow> nat \<Rightarrow> nat" where
  "rankOf us i = labelRank (pc (us ! i))"

text \<open>
  Unit \<open>i\<close> is not held back by a barrier at which every unit must arrive: it is at no
  barrier, or every unit of the block has reached the one it is at.
\<close>

definition mayMove :: "Unit list \<Rightarrow> nat \<Rightarrow> nat \<Rightarrow> bool" where
  "mayMove us N i \<longleftrightarrow>
     (isBarrier (pc (us ! i)) \<longrightarrow> (\<forall>j<N. rankOf us i \<le> rankOf us j))"

definition effect ::
  "ExampleAcceleratedKernel \<Rightarrow> u32 \<Rightarrow> nat \<Rightarrow> nat \<Rightarrow> nat \<Rightarrow> Unit \<Rightarrow> u32 list \<Rightarrow> u32 list
    \<Rightarrow> Unit \<times> u32 list \<times> u32 list" where
  "effect k uiMult2 N b i u sh gl =
     (case pc u of
        L_Fill \<Rightarrow> (u\<lparr>pc := L_Sync1\<rparr>, sh[i := of_nat i + 1 + uselessSum (TuiNumUselessWork k)], gl)
      | L_Sync1 \<Rightarrow> (u\<lparr>pc := L_Load\<rparr>, sh, gl)
      | L_Load \<Rightarrow> (u\<lparr>pc := L_Store, reg := sh ! (N - 1 - i)\<rparr>, sh, gl)
      | L_Store \<Rightarrow> (u\<lparr>pc := L_Sync2\<rparr>,
                     sh[N - 1 - i := reg u + (of_nat i - uselessSum (TuiNumUselessWork k))], gl)
      | L_Sync2 \<Rightarrow> (u\<lparr>pc := L_AtomicArg\<rparr>, sh, gl)
      | L_AtomicArg \<Rightarrow>
          if 0 < i then (u\<lparr>pc := L_Atomic, reg := sh ! i\<rparr>, sh, gl)
          else (u\<lparr>pc := L_Sync3\<rparr>, sh, gl)
      | L_Atomic \<Rightarrow> (u\<lparr>pc := L_Sync3\<rparr>, sh[0 := sh ! 0 + reg u], gl)
      | L_Sync3 \<Rightarrow> (u\<lparr>pc := L_Master\<rparr>, sh, gl)
      | L_Master \<Rightarrow>
          if i = 0 then (u\<lparr>pc := L_Write, reg := sh ! 0\<rparr>, sh, gl)
          else (u\<lparr>pc := L_Done\<rparr>, sh, gl)
      | L_Write \<Rightarrow> (u\<lparr>pc := L_Done\<rparr>, sh, gl[b := reg u * m_uiMult k * uiMult2])
      | L_Done \<Rightarrow> (u, sh, gl))"

definition syncInv :: "nat \<Rightarrow> Unit list \<Rightarrow> bool" where
  "syncInv N us \<longleftrightarrow>
     ((\<exists>i<N. 1 < rankOf us i) \<longrightarrow> (\<forall>i<N. 1 \<le> rankOf us i)) \<and>
     ((\<exists>i<N. 4 < rankOf us i) \<longrightarrow> (\<forall>i<N. 4 \<le> rankOf us i)) \<and>
     ((\<exists>i<N. 7 < rankOf us i) \<longrightarrow> (\<forall>i<N. 7 \<le> rankOf us i))"

definition fillInv :: "u32 \<Rightarrow> nat \<Rightarrow> u32 list \<Rightarrow> Unit list \<Rightarrow> bool" where
  "fillInv S N sh us \<longleftrightarrow>
     (\<forall>j<N.
        (1 \<le> rankOf us j \<and> rankOf us (N - 1 - j) \<le> 3 \<longrightarrow> sh ! j = of_nat j + 1 + S) \<and>
        (rankOf us (N - 1 - j) = 3 \<longrightarrow> reg (us ! (N - 1 - j)) = of_nat j + 1 + S) \<and>
        (rankOf us (N - 1 - j) = 4 \<and> (\<forall>i<N. rankOf us i \<le> 4) \<longrightarrow> sh ! j = of_nat N))"

definition doneAdds :: "nat \<Rightarrow> Unit list \<Rightarrow> nat set" where
  "doneAdds N us = {i. 0 < i \<and> i < N \<and> 7 \<le> rankOf us i}"

definition accInv :: "u32 list \<Rightarrow> nat \<Rightarrow> u32 list \<Rightarrow> Unit list \<Rightarrow> bool" where
  "accInv c N sh us \<longleftrightarrow>
     (\<forall>j. 0 < j \<and> j < N \<longrightarrow> sh ! j = c ! j) \<and>
     (0 < N \<longrightarrow> sh ! 0 = c ! 0 + (\<Sum>i\<in>doneAdds N us. c ! i)) \<and>
     (\<forall>i<N. rankOf us i = 6 \<longrightarrow> 0 < i \<and> reg (us ! i) = c ! i)"

definition outInv :: "u32 list \<Rightarrow> nat \<Rightarrow> Unit list \<Rightarrow> bool" where
  "outInv c N us \<longleftrightarrow> (\<forall>i<N. rankOf us i = 9 \<longrightarrow> i = 0 \<and> reg (us ! i) = (\<Sum>i<N. c ! i))"

definition blockInv :: "u32 \<Rightarrow> u32 list \<Rightarrow> nat \<Rightarrow> u32 list \<Rightarrow> Unit list \<Rightarrow> bool" where
  "blockInv S c N sh us \<longleftrightarrow>
     length us = N \<and> length sh = N \<and> syncInv N us \<and> fillInv S N sh us \<and>
     ((\<forall>i<N. 4 \<le> rankOf us i) \<longrightarrow> accInv c N sh us) \<and> outInv c N us"

definition rendezvous :: "Backend \<Rightarrow> nat \<Rightarrow> bool" where
  "rendezvous backend N \<longleftrightarrow> backend \<noteq> AccSerial \<or> N \<le> 1"

definition wfBlock :: "WorkSize \<Rightarrow> nat \<Rightarrow> Block \<Rightarrow> bool" where
  "wfBlock ws b blk \<longleftrightarrow>
     length (units blk) = getSize_Block_Kernels_Linear ws \<and>
     length (shared blk) = getSize_Block_Kernels_Linear ws \<and>
     (\<forall>i<getSize_Block_Kernels_Linear ws.
        unitAt ws (getSize_Block_Kernels_Linear ws) b i (units blk ! i))"

definition outValue :: "ExampleAcceleratedKernel \<Rightarrow> u32 \<Rightarrow> nat \<Rightarrow> u32" where
  "outValue k uiMult2 N = of_nat N * of_nat N * m_uiMult k * uiMult2"

definition gridInv :: "WorkSize \<Rightarrow> ExampleAcceleratedKernel \<Rightarrow> u32 \<Rightarrow> u32 list \<Rightarrow> Grid \<Rightarrow> bool" where
  "gridInv ws k uiMult2 gl0 g \<longleftrightarrow>
     length (blocks g) = getSize_Grid_Blocks_Linear ws \<and>
     length (global g) = length gl0 \<and>
     (\<forall>b<getSize_Grid_Blocks_Linear ws.
        wfBlock ws b (blocks g ! b) \<and>
        blockInv (uselessSum (TuiNumUselessWork k))
          (replicate (getSize_Block_Kernels_Linear ws) (of_nat (getSize_Block_Kernels_Linear ws)))
          (getSize_Block_Kernels_Linear ws) (shared (blocks g ! b)) (units (blocks g ! b))) \<and>
     (\<forall>x<length gl0.
        global g ! x =
          (if x < getSize_Grid_Blocks_Linear ws \<and> 0 < getSize_Block_Kernels_Linear ws \<and>
              rankOf (units (blocks g ! x)) 0 = 10
           then outValue k uiMult2 (getSize_Block_Kernels_Linear ws) else gl0 ! x))"

definition expectedGlobal :: "WorkSize \<Rightarrow> ExampleAcceleratedKernel \<Rightarrow> u32 \<Rightarrow> u32 list \<Rightarrow> u32 list" where
  "expectedGlobal ws k uiMult2 gl0 =
     map (\<lambda>x. if x < getSize_Grid_Blocks_Linear ws \<and> 0 < getSize_Block_Kernels_Linear ws
               then outValue k uiMult2 (getSize_Block_Kernels_Linear ws) else gl0 ! x)
         [0..<length gl0]"

text \<open>The steps the units of a grid still have to take, at most.\<close>

definition remaining :: "Grid \<Rightarrow> nat" where
  "remaining g = (\<Sum>blk\<leftarrow>blocks g. \<Sum>u\<leftarrow>units blk. 10 - labelRank (pc u))"

text \<open>What the host expects: every block's value as line 200 computes it, and no mismatch.\<close>

definition correctResult :: "WorkSize \<Rightarrow> u32 \<Rightarrow> ProfileResult" where
  "correctResult ws uiMult2 =
     \<lparr>vuiBlockRetVals = replicate (getSize_Grid_Blocks_Linear ws)
        (of_nat (getSize_Block_Kernels_Linear ws) * of_nat (getSize_Block_Kernels_Linear ws)
           * 42 * uiMult2),
      bResultCorrect = True, mismatches = []\<rparr>"

text \<open>
  A unit that is about to write to global memory is the master of its block: its linear
  index, as the kernel reads it, is 0.
\<close>

definition writerOk :: "WorkSize \<Rightarrow> Unit \<Rightarrow> bool" where
  "writerOk ws u \<longleftrightarrow>
     (pc u = L_Write \<longrightarrow> (of_nat (getIdx_Block_Kernels_Linear ws (idxCtx u)) :: u32) = 0)"

text \<open>The index contexts of all units of a grid, block by block.\<close>

definition contexts :: "Grid \<Rightarrow> IndexContext list list" where
  "contexts g = map (\<lambda>blk. map idxCtx (units blk)) (blocks g)"

text \<open>One context per coordinate of the block extent, for each coordinate of the grid extent.\<close>

definition allContexts :: "WorkSize \<Rightarrow> IndexContext list list" where
  "allContexts ws =
     map (\<lambda>bc. map (\<lambda>uc. \<lparr>blockCoordinate = bc, unitCoordinate = uc\<rparr>) (coords (blockKernels ws)))
       (coords (gridBlocks ws))"

text \<open>
  What holds of a grid in every state, whatever the backend: its units are those of the
  work size, in the order of the enumeration, and only a master is about to write.
\<close>

definition structInv :: "WorkSize \<Rightarrow> Grid \<Rightarrow> bool" where
  "structInv ws g \<longleftrightarrow>
     contexts g = allContexts ws \<and>
     (\<forall>b<length (blocks g). \<forall>i<length (units (blocks g ! b)). writerOk ws (units (blocks g ! b) ! i))"

section \<open>The local computations in closed form\<close>

lemma unat_succ_below:
  fixes i W :: u32
  assumes "i < W" shows "unat (i + 1) = Suc (unat i)"
proof -
  have "unat i < unat W" using assms by (simp add: word_less_nat_alt)
  moreover have "unat W < 2 ^ LENGTH(32)" by (rule unsigned_less)
  ultimately have "unat i + 1 < 2 ^ LENGTH(32)" by linarith
  then show ?thesis by (simp add: unat_word_ariths)
qed

lemma loop_iSum1_closed:
  "i \<le> W \<Longrightarrow> loop_iSum1 W i s = s + of_nat (\<Sum>k = unat i..<unat W. k)"
proof (induction W i s rule: loop_iSum1.induct)
  case (1 W i s)
  show ?case
  proof (cases "i < W")
    case True
    then have suc: "unat (i + 1) = Suc (unat i)" by (rule unat_succ_below)
    from True have lt: "unat i < unat W" by (simp add: word_less_nat_alt)
    then have le: "i + 1 \<le> W" using suc by (simp add: word_le_nat_alt)
    have "loop_iSum1 W i s = loop_iSum1 W (i + 1) (s + i)" using True by simp
    also have "\<dots> = s + i + of_nat (\<Sum>k = Suc (unat i)..<unat W. k)"
      using "1.IH" [OF True le] suc by simp
    also have "\<dots> = s + of_nat (\<Sum>k = unat i..<unat W. k)"
      using lt by (simp add: sum.atLeast_Suc_lessThan)
    finally show ?thesis .
  next
    case False
    with "1.prems" have "i = W" by simp
    then show ?thesis by simp
  qed
qed

lemma loop_iSum2_closed:
  "i \<le> W \<Longrightarrow> loop_iSum2 W i s = s - of_nat (\<Sum>k = unat i..<unat W. k)"
proof (induction W i s rule: loop_iSum2.induct)
  case (1 W i s)
  show ?case
  proof (cases "i < W")
    case True
    then have suc: "unat (i + 1) = Suc (unat i)" by (rule unat_succ_below)
    from True have lt: "unat i < unat W" by (simp add: word_less_nat_alt)
    then have le: "i + 1 \<le> W" using suc by (simp add: word_le_nat_alt)
    have "loop_iSum2 W i s = loop_iSum2 W (i + 1) (s - i)" using True by simp
    also have "\<dots> = s - i - of_nat (\<Sum>k = Suc (unat i)..<unat W. k)"
      using "1.IH" [OF True le] suc by simp
    also have "\<dots> = s - of_nat (\<Sum>k = unat i..<unat W. k)"
      using lt by (simp add: sum.atLeast_Suc_lessThan)
    finally show ?thesis .
  next
    case False
    with "1.prems" have "i = W" by simp
    then show ?thesis by simp
  qed
qed

lemma iSum1_closed: "iSum1 W idx = idx + 1 + uselessSum W"
  using loop_iSum1_closed [of 0 W "idx + 1"] by (simp add: iSum1_def uselessSum_def)

lemma iSum2_closed: "iSum2 W idx = idx - uselessSum W"
  using loop_iSum2_closed [of 0 W idx] by (simp add: iSum2_def uselessSum_def)

lemma uselessSum_gauss: "uselessSum W = of_nat (unat W * (unat W - 1) div 2)"
  by (simp add: uselessSum_def Sum_Ico_nat)

lemma iSum2_wraps:
  "unat idx < unat (uselessSum W) \<Longrightarrow>
     unat (iSum2 W idx) = 2 ^ 32 + unat idx - unat (uselessSum W)"
  by (simp add: iSum2_closed unat_sub_if_size word_size)

lemma iSum2_no_wrap:
  "unat (uselessSum W) \<le> unat idx \<Longrightarrow>
     unat (iSum2 W idx) = unat idx - unat (uselessSum W)"
  by (simp add: iSum2_closed unat_sub_if_size word_size)

section \<open>Enumeration and linearization\<close>

lemma concat_intervals:
  "concat (map (\<lambda>y. [a + y * w ..< a + Suc y * w]) [0..<n]) = [a ..< a + n * w]"
proof (induction n)
  case 0
  show ?case by simp
next
  case (Suc n)
  have e: "a + Suc n * w = a + n * w + w" by simp
  have "[a ..< a + Suc n * w] = [a ..< a + n * w] @ [a + n * w ..< a + Suc n * w]"
    unfolding e by (rule upt_add_eq_append) simp
  with Suc show ?case by simp
qed

lemma map_linearize_coordsRow:
  "map (linearize ext) (coordsRow ext z y) =
     [z * (vx ext * vy ext) + y * vx ext ..< z * (vx ext * vy ext) + Suc y * vx ext]"
proof -
  have "map (linearize ext) (coordsRow ext z y) =
          map (\<lambda>x. x + (z * (vx ext * vy ext) + y * vx ext)) [0..<vx ext]"
    by (simp add: coordsRow_def linearize_def add.assoc add.commute)
  also have "\<dots> = [z * (vx ext * vy ext) + y * vx ext ..<
                      vx ext + (z * (vx ext * vy ext) + y * vx ext)]"
    by (rule map_add_upt)
  also have "vx ext + (z * (vx ext * vy ext) + y * vx ext) =
               z * (vx ext * vy ext) + Suc y * vx ext"
    by simp
  finally show ?thesis .
qed

lemma map_linearize_coordsPlane:
  "map (linearize ext) (coordsPlane ext z) =
     [0 + z * (vx ext * vy ext) ..< 0 + Suc z * (vx ext * vy ext)]"
proof -
  have "map (linearize ext) (coordsPlane ext z) =
          concat (map (\<lambda>y. [z * (vx ext * vy ext) + y * vx ext ..<
                               z * (vx ext * vy ext) + Suc y * vx ext]) [0..<vy ext])"
    by (simp add: coordsPlane_def map_concat comp_def map_linearize_coordsRow)
  also have "\<dots> = [z * (vx ext * vy ext) ..< z * (vx ext * vy ext) + vy ext * vx ext]"
    by (rule concat_intervals)
  also have "z * (vx ext * vy ext) + vy ext * vx ext = 0 + Suc z * (vx ext * vy ext)"
    by (simp add: mult.commute)
  finally show ?thesis by simp
qed

lemma map_linearize_coords: "map (linearize ext) (coords ext) = [0..<prodVec ext]"
proof -
  have "map (linearize ext) (coords ext) =
          concat (map (\<lambda>z. [0 + z * (vx ext * vy ext) ..< 0 + Suc z * (vx ext * vy ext)])
                    [0..<vz ext])"
    by (simp add: coords_def map_concat comp_def map_linearize_coordsPlane)
  also have "\<dots> = [0 ..< 0 + vz ext * (vx ext * vy ext)]"
    by (rule concat_intervals)
  finally show ?thesis by (simp add: prodVec_def mult.commute)
qed

lemma length_coords: "length (coords ext) = prodVec ext"
  using arg_cong [OF map_linearize_coords, of length ext] by simp

lemma linearize_nth_coords: "i < prodVec ext \<Longrightarrow> linearize ext (coords ext ! i) = i"
  using arg_cong [OF map_linearize_coords, of "\<lambda>xs. xs ! i" ext]
  by (simp add: length_coords)

lemma distinct_coords: "distinct (coords ext)"
proof -
  have "distinct (map (linearize ext) (coords ext))"
    by (simp add: map_linearize_coords)
  then show ?thesis by (rule distinct_map [THEN iffD1, THEN conjunct1])
qed

lemma set_coordsRow: "set (coordsRow ext z y) = {c. vx c < vx ext \<and> vy c = y \<and> vz c = z}"
proof (rule set_eqI)
  fix c :: vec3
  show "c \<in> set (coordsRow ext z y) \<longleftrightarrow> c \<in> {c. vx c < vx ext \<and> vy c = y \<and> vz c = z}"
  proof
    assume "c \<in> set (coordsRow ext z y)"
    then show "c \<in> {c. vx c < vx ext \<and> vy c = y \<and> vz c = z}"
      by (auto simp: coordsRow_def)
  next
    assume "c \<in> {c. vx c < vx ext \<and> vy c = y \<and> vz c = z}"
    then have "vx c < vx ext" and "c = \<lparr>vx = vx c, vy = y, vz = z\<rparr>" by auto
    then show "c \<in> set (coordsRow ext z y)"
      unfolding coordsRow_def set_map by (intro image_eqI [where x = "vx c"]) auto
  qed
qed

lemma set_coords: "set (coords ext) = {c. inExtent ext c}"
  by (auto simp: coords_def coordsPlane_def set_coordsRow inExtent_def)

section \<open>One step of the kernel in terms of linear indices\<close>

lemma unat_of_nat_u32: "i < 2 ^ 32 \<Longrightarrow> unat (of_nat i :: u32) = i"
  by (simp add: unat_of_nat)

lemma mirror_u32:
  assumes "i < N" "N < 2 ^ 32"
  shows "unat ((of_nat N :: u32) - 1 - of_nat i) = N - 1 - i"
proof -
  have "Suc i \<le> N" using assms by simp
  then have "(of_nat (N - Suc i) :: u32) = of_nat N - of_nat (Suc i)"
    by (rule of_nat_diff)
  then have "(of_nat N :: u32) - 1 - of_nat i = of_nat (N - 1 - i)"
    by (simp add: algebra_simps)
  moreover have "N - 1 - i < 2 ^ 32" using assms by simp
  ultimately show ?thesis by (simp only: unat_of_nat_u32)
qed

lemma of_nat_u32_eq_0: "i < 2 ^ 32 \<Longrightarrow> (of_nat i :: u32) = 0 \<longleftrightarrow> i = 0"
proof
  assume "i < 2 ^ 32" "(of_nat i :: u32) = 0"
  then have "unat (of_nat i :: u32) = 0" by simp
  with \<open>i < 2 ^ 32\<close> show "i = 0" by (simp only: unat_of_nat_u32)
qed simp

lemma of_nat_u32_pos: "i < 2 ^ 32 \<Longrightarrow> 0 < (of_nat i :: u32) \<longleftrightarrow> 0 < i"
  by (simp add: word_greater_zero_iff of_nat_u32_eq_0)
lemma kernelStep_at:
  assumes "unitAt ws N b i u" "length sh = N" "b < length gl"
  shows "kernelStep k ws uiMult2 u sh gl =
    Inr (case pc u of
        L_Fill \<Rightarrow> (u\<lparr>pc := L_Sync1\<rparr>, sh[i := of_nat i + 1 + uselessSum (TuiNumUselessWork k)], gl)
      | L_Sync1 \<Rightarrow> (u\<lparr>pc := L_Load\<rparr>, sh, gl)
      | L_Load \<Rightarrow> (u\<lparr>pc := L_Store, reg := sh ! (N - 1 - i)\<rparr>, sh, gl)
      | L_Store \<Rightarrow> (u\<lparr>pc := L_Sync2\<rparr>,
                     sh[N - 1 - i := reg u + (of_nat i - uselessSum (TuiNumUselessWork k))], gl)
      | L_Sync2 \<Rightarrow> (u\<lparr>pc := L_AtomicArg\<rparr>, sh, gl)
      | L_AtomicArg \<Rightarrow>
          if 0 < i then (u\<lparr>pc := L_Atomic, reg := sh ! i\<rparr>, sh, gl)
          else (u\<lparr>pc := L_Sync3\<rparr>, sh, gl)
      | L_Atomic \<Rightarrow> (u\<lparr>pc := L_Sync3\<rparr>, sh[0 := sh ! 0 + reg u], gl)
      | L_Sync3 \<Rightarrow> (u\<lparr>pc := L_Master\<rparr>, sh, gl)
      | L_Master \<Rightarrow>
          if i = 0 then (u\<lparr>pc := L_Write, reg := sh ! 0\<rparr>, sh, gl)
          else (u\<lparr>pc := L_Done\<rparr>, sh, gl)
      | L_Write \<Rightarrow> (u\<lparr>pc := L_Done\<rparr>, sh, gl[b := reg u * m_uiMult k * uiMult2])
      | L_Done \<Rightarrow> (u, sh, gl))"
proof -
  from assms have N: "getSize_Block_Kernels_Linear ws = N" and N32: "N < 2 ^ 32"
    and i: "i < N" and b32: "b < 2 ^ 32"
    and idx: "getIdx_Block_Kernels_Linear ws (idxCtx u) = i"
    and bid: "getIdx_Grid_Blocks_Linear ws (idxCtx u) = b"
    by (simp_all add: unitAt_def)
  from i N32 have i32: "i < 2 ^ 32" by simp
  have ui: "unat (of_nat i :: u32) = i" using i32 by (rule unat_of_nat_u32)
  have ub: "unat (of_nat b :: u32) = b" using b32 by (rule unat_of_nat_u32)
  have mi: "unat ((of_nat N :: u32) - 1 - of_nat i) = N - 1 - i" using i N32 by (rule mirror_u32)
  have pos: "0 < (of_nat i :: u32) \<longleftrightarrow> 0 < i" using i32 by (rule of_nat_u32_pos)
  have z: "(of_nat i :: u32) = 0 \<longleftrightarrow> i = 0" using i32 by (rule of_nat_u32_eq_0)
  have m: "N - 1 - i < N" using i by simp
  note facts = kernelStep_def Let_def N idx bid ui ub mi pos z iSum1_closed iSum2_closed
          atomicOp_Add_def
  show ?thesis
    using i m assms(2,3)
    by (cases "pc u") (simp_all add: facts)
qed

lemma rankOf_update:
  "i < length us \<Longrightarrow> rankOf (us[i := u']) j = (if j = i then labelRank (pc u') else rankOf us j)"
  by (simp add: rankOf_def nth_list_update)

lemma effect_pc:
  "effect k uiMult2 N b i u sh gl = (u', sh', gl') \<Longrightarrow>
   pc u' = (case pc u of
       L_Fill \<Rightarrow> L_Sync1 | L_Sync1 \<Rightarrow> L_Load | L_Load \<Rightarrow> L_Store | L_Store \<Rightarrow> L_Sync2
     | L_Sync2 \<Rightarrow> L_AtomicArg | L_AtomicArg \<Rightarrow> (if 0 < i then L_Atomic else L_Sync3)
     | L_Atomic \<Rightarrow> L_Sync3 | L_Sync3 \<Rightarrow> L_Master
     | L_Master \<Rightarrow> (if i = 0 then L_Write else L_Done) | L_Write \<Rightarrow> L_Done
     | L_Done \<Rightarrow> L_Done)"
  by (cases "pc u") (auto simp: effect_def split: if_splits)

lemma sync_level_step:
  fixes r r' :: "nat \<Rightarrow> nat"
  assumes old: "(\<exists>j<N. l < r j) \<longrightarrow> (\<forall>j<N. l \<le> r j)"
    and same: "\<And>j. j \<noteq> i \<Longrightarrow> r' j = r j"
    and mono: "r i \<le> r' i"
    and cross: "r i \<le> l \<and> l < r' i \<longrightarrow> (\<forall>j<N. l \<le> r j)"
  shows "(\<exists>j<N. l < r' j) \<longrightarrow> (\<forall>j<N. l \<le> r' j)"
proof (intro impI allI)
  fix j
  assume ex: "\<exists>j<N. l < r' j" and j: "j < N"
  from ex obtain w where w: "w < N" "l < r' w" by blast
  have all: "\<forall>j<N. l \<le> r j"
  proof (cases "w = i")
    case False
    with w same have "l < r w" by simp
    with w old show ?thesis by blast
  next
    case True
    show ?thesis
    proof (cases "l < r i")
      case True
      with \<open>w = i\<close> w old show ?thesis by blast
    next
      case False
      with \<open>w = i\<close> w cross show ?thesis by simp
    qed
  qed
  show "l \<le> r' j"
  proof (cases "j = i")
    case True
    with all j mono show ?thesis by (metis le_trans)
  next
    case False
    with all j same show ?thesis by simp
  qed
qed

lemma effect_rank_mono:
  "effect k uiMult2 N b i u sh gl = (u', sh', gl') \<Longrightarrow> labelRank (pc u) \<le> labelRank (pc u')"
  by (drule effect_pc) (cases "pc u", simp_all)

lemma effect_cross:
  assumes eff: "effect k uiMult2 N b i (us ! i) sh gl = (u', sh', gl')"
    and mv: "mayMove us N i"
    and l: "l = 1 \<or> l = 4 \<or> l = 7"
    and c: "rankOf us i \<le> l" "l < labelRank (pc u')"
  shows "\<forall>j<N. l \<le> rankOf us j"
proof -
  note pc' = effect_pc [OF eff]
  from pc' l c have "isBarrier (pc (us ! i)) \<and> rankOf us i = l"
    by (cases "pc (us ! i)") (auto simp: rankOf_def split: if_splits)
  with mv show ?thesis by (simp add: mayMove_def)
qed

lemma syncInv_step:
  assumes inv: "syncInv N us" and i: "i < N" and len: "length us = N"
    and mv: "mayMove us N i"
    and eff: "effect k uiMult2 N b i (us ! i) sh gl = (u', sh', gl')"
  shows "syncInv N (us[i := u'])"
proof -
  have same: "\<And>j. j \<noteq> i \<Longrightarrow> rankOf (us[i := u']) j = rankOf us j"
    using i len by (simp add: rankOf_update)
  have new: "rankOf (us[i := u']) i = labelRank (pc u')"
    using i len by (simp add: rankOf_update)
  have mono: "rankOf us i \<le> rankOf (us[i := u']) i"
    using effect_rank_mono [OF eff] new by (simp add: rankOf_def)
  have cross: "rankOf us i \<le> l \<and> l < rankOf (us[i := u']) i \<longrightarrow> (\<forall>j<N. l \<le> rankOf us j)"
    if "l = 1 \<or> l = 4 \<or> l = 7" for l
    unfolding new using effect_cross [OF eff mv that] by blast
  have lvl: "(\<exists>j<N. l < rankOf (us[i := u']) j) \<longrightarrow> (\<forall>j<N. l \<le> rankOf (us[i := u']) j)"
    if l: "l = 1 \<or> l = 4 \<or> l = 7"
      and old: "(\<exists>j<N. l < rankOf us j) \<longrightarrow> (\<forall>j<N. l \<le> rankOf us j)" for l
    using old same mono cross [OF l] by (rule sync_level_step)
  from inv have o1: "(\<exists>j<N. 1 < rankOf us j) \<longrightarrow> (\<forall>j<N. 1 \<le> rankOf us j)"
    and o4: "(\<exists>j<N. 4 < rankOf us j) \<longrightarrow> (\<forall>j<N. 4 \<le> rankOf us j)"
    and o7: "(\<exists>j<N. 7 < rankOf us j) \<longrightarrow> (\<forall>j<N. 7 \<le> rankOf us j)"
    unfolding syncInv_def by blast+
  have "1 = (1::nat) \<or> 1 = (4::nat) \<or> 1 = (7::nat)" "4 = (1::nat) \<or> 4 = (4::nat) \<or> 4 = (7::nat)"
    "7 = (1::nat) \<or> 7 = (4::nat) \<or> 7 = (7::nat)" by simp_all
  then show ?thesis
    unfolding syncInv_def using lvl [OF _ o1] lvl [OF _ o4] lvl [OF _ o7] by blast
qed

lemma fillInv_late:
  assumes "\<forall>j<N. 4 \<le> rankOf us j" "i < N" "5 \<le> rankOf us i"
  shows "fillInv S N sh us"
  unfolding fillInv_def
proof (intro allI impI)
  fix j assume j: "j < N"
  then have m: "N - 1 - j < N" by simp
  with assms(1) have "4 \<le> rankOf us (N - 1 - j)" by blast
  moreover have "\<not> (\<forall>i<N. rankOf us i \<le> 4)" 
  proof
    assume "\<forall>i<N. rankOf us i \<le> 4"
    with assms(2) have "rankOf us i \<le> 4" by blast
    with assms(3) show False by simp
  qed
  ultimately show "(1 \<le> rankOf us j \<and> rankOf us (N - 1 - j) \<le> 3 \<longrightarrow> sh ! j = of_nat j + 1 + S) \<and>
        (rankOf us (N - 1 - j) = 3 \<longrightarrow> reg (us ! (N - 1 - j)) = of_nat j + 1 + S) \<and>
        (rankOf us (N - 1 - j) = 4 \<and> (\<forall>i<N. rankOf us i \<le> 4) \<longrightarrow> sh ! j = of_nat N)"
    by (intro conjI impI) (simp, simp, blast)
qed

lemma fillInv_D:
  assumes "fillInv S N sh us" "j < N"
  shows "1 \<le> rankOf us j \<Longrightarrow> rankOf us (N - 1 - j) \<le> 3 \<Longrightarrow> sh ! j = of_nat j + 1 + S"
    and "rankOf us (N - 1 - j) = 3 \<Longrightarrow> reg (us ! (N - 1 - j)) = of_nat j + 1 + S"
    and "rankOf us (N - 1 - j) = 4 \<Longrightarrow> \<forall>i<N. rankOf us i \<le> 4 \<Longrightarrow> sh ! j = of_nat N"
  using assms unfolding fillInv_def by blast+

lemma syncInv_D:
  assumes "syncInv N us" "i < N" "j < N"
  shows "1 < rankOf us i \<Longrightarrow> 1 \<le> rankOf us j"
    and "4 < rankOf us i \<Longrightarrow> 4 \<le> rankOf us j"
    and "7 < rankOf us i \<Longrightarrow> 7 \<le> rankOf us j"
  using assms unfolding syncInv_def by blast+

lemma fillInv_step_Fill:
  assumes sync: "syncInv N us" and fill: "fillInv S N sh us"
    and i: "i < N" and len: "length us = N" "length sh = N"
    and pc: "pc (us ! i) = L_Fill"
  shows "fillInv S N (sh[i := of_nat i + 1 + S]) (us[i := (us ! i)\<lparr>pc := L_Sync1\<rparr>])"
  unfolding fillInv_def
proof (intro allI impI)
  fix j assume j: "j < N"
  then have m: "N - 1 - j < N" by simp
  have ri: "rankOf us i = 0" using pc by (simp add: rankOf_def)
  have low: "rankOf us (N - 1 - j) \<le> 1"
  proof (rule ccontr)
    assume "\<not> rankOf us (N - 1 - j) \<le> 1"
    then have "1 < rankOf us (N - 1 - j)" by simp
    from syncInv_D(1) [OF sync m i this] ri show False by simp
  qed
  let ?us = "us[i := (us ! i)\<lparr>pc := L_Sync1\<rparr>]" and ?sh = "sh[i := of_nat i + 1 + S]"
  have a: "1 \<le> rankOf ?us j \<and> rankOf ?us (N - 1 - j) \<le> 3 \<longrightarrow> ?sh ! j = of_nat j + 1 + S"
    using fillInv_D(1) [OF fill j] low i j m len ri
    by (cases "j = i"; cases "N - 1 - j = i") (simp_all add: rankOf_update)
  have b: "rankOf ?us (N - 1 - j) = 3 \<longrightarrow> reg (?us ! (N - 1 - j)) = of_nat j + 1 + S"
    using low i j m len
    by (cases "N - 1 - j = i") (simp_all add: rankOf_update)
  have c: "rankOf ?us (N - 1 - j) = 4 \<and> (\<forall>i<N. rankOf ?us i \<le> 4) \<longrightarrow> ?sh ! j = of_nat N"
    using low i j m len
    by (cases "N - 1 - j = i") (simp_all add: rankOf_update)
  from a b c show "(1 \<le> rankOf ?us j \<and> rankOf ?us (N - 1 - j) \<le> 3 \<longrightarrow> ?sh ! j = of_nat j + 1 + S) \<and>
        (rankOf ?us (N - 1 - j) = 3 \<longrightarrow> reg (?us ! (N - 1 - j)) = of_nat j + 1 + S) \<and>
        (rankOf ?us (N - 1 - j) = 4 \<and> (\<forall>i<N. rankOf ?us i \<le> 4) \<longrightarrow> ?sh ! j = of_nat N)"
    by blast
qed

lemma all_le_old:
  assumes "\<forall>x<N. rankOf (us[i := u']) x \<le> c" "rankOf us i \<le> labelRank (pc u')"
    "i < N" "length us = N"
  shows "\<forall>x<N. rankOf us x \<le> c"
proof (intro allI impI)
  fix x assume x: "x < N"
  with assms(1) have "rankOf (us[i := u']) x \<le> c" by blast
  with assms(2-4) x show "rankOf us x \<le> c"
    by (cases "x = i") (simp_all add: rankOf_update)
qed

lemma mirror_invol: "j < N \<Longrightarrow> N - 1 - (N - 1 - j) = (j::nat)"
  by simp

lemma mirror_eq_iff: "j < N \<Longrightarrow> i < N \<Longrightarrow> N - 1 - j = i \<longleftrightarrow> j = N - 1 - (i::nat)"
  by auto

lemma fillInv_step_Sync1:
  assumes sync: "syncInv N us" and fill: "fillInv S N sh us"
    and i: "i < N" and len: "length us = N" "length sh = N"
    and pc: "pc (us ! i) = L_Sync1"
  shows "fillInv S N sh (us[i := (us ! i)\<lparr>pc := L_Load\<rparr>])"
  unfolding fillInv_def
proof (intro allI impI)
  fix j assume j: "j < N"
  then have m: "N - 1 - j < N" by simp
  have ri: "rankOf us i = 1" using pc by (simp add: rankOf_def)
  let ?us = "us[i := (us ! i)\<lparr>pc := L_Load\<rparr>]"
  have a: "1 \<le> rankOf ?us j \<and> rankOf ?us (N - 1 - j) \<le> 3 \<longrightarrow> sh ! j = of_nat j + 1 + S"
    using fillInv_D(1) [OF fill j] i j m len ri
    by (cases "j = i"; cases "N - 1 - j = i") (simp_all add: rankOf_update)
  have b: "rankOf ?us (N - 1 - j) = 3 \<longrightarrow> reg (?us ! (N - 1 - j)) = of_nat j + 1 + S"
    using fillInv_D(2) [OF fill j] i j m len
    by (cases "N - 1 - j = i") (simp_all add: rankOf_update)
  have c: "rankOf ?us (N - 1 - j) = 4 \<and> (\<forall>i<N. rankOf ?us i \<le> 4) \<longrightarrow> sh ! j = of_nat N"
  proof
    assume h: "rankOf ?us (N - 1 - j) = 4 \<and> (\<forall>i<N. rankOf ?us i \<le> 4)"
    then have ne: "N - 1 - j \<noteq> i" using i len by (auto simp: rankOf_update)
    with h i len have r4: "rankOf us (N - 1 - j) = 4" by (simp add: rankOf_update)
    from h have h2: "\<forall>x<N. rankOf ?us x \<le> 4" by blast
    have "rankOf us i \<le> labelRank (pc (?us ! i))" using ri i len by simp
    then have "\<forall>x<N. rankOf us x \<le> 4"
      using all_le_old [OF h2 _ i len(1)] i len by simp
    with fillInv_D(3) [OF fill j r4] show "sh ! j = of_nat N" by blast
  qed
  from a b c show "(1 \<le> rankOf ?us j \<and> rankOf ?us (N - 1 - j) \<le> 3 \<longrightarrow> sh ! j = of_nat j + 1 + S) \<and>
        (rankOf ?us (N - 1 - j) = 3 \<longrightarrow> reg (?us ! (N - 1 - j)) = of_nat j + 1 + S) \<and>
        (rankOf ?us (N - 1 - j) = 4 \<and> (\<forall>i<N. rankOf ?us i \<le> 4) \<longrightarrow> sh ! j = of_nat N)"
    by blast
qed

lemma fillInv_step_Load:
  assumes sync: "syncInv N us" and fill: "fillInv S N sh us"
    and i: "i < N" and len: "length us = N" "length sh = N"
    and pc: "pc (us ! i) = L_Load"
  shows "fillInv S N sh (us[i := (us ! i)\<lparr>pc := L_Store, reg := sh ! (N - 1 - i)\<rparr>])"
  unfolding fillInv_def
proof (intro allI impI)
  fix j assume j: "j < N"
  then have m: "N - 1 - j < N" by simp
  have ri: "rankOf us i = 2" using pc by (simp add: rankOf_def)
  have rj: "1 \<le> rankOf us j" using syncInv_D(1) [OF sync i j] ri by simp
  let ?us = "us[i := (us ! i)\<lparr>pc := L_Store, reg := sh ! (N - 1 - i)\<rparr>]"
  have a: "1 \<le> rankOf ?us j \<and> rankOf ?us (N - 1 - j) \<le> 3 \<longrightarrow> sh ! j = of_nat j + 1 + S"
    using fillInv_D(1) [OF fill j] i j m len ri
    by (cases "j = i"; cases "N - 1 - j = i") (simp_all add: rankOf_update)
  have b: "rankOf ?us (N - 1 - j) = 3 \<longrightarrow> reg (?us ! (N - 1 - j)) = of_nat j + 1 + S"
  proof (cases "N - 1 - j = i")
    case True
    then have jm: "N - 1 - i = j" using j by auto
    from fillInv_D(1) [OF fill j rj] True ri have "sh ! j = of_nat j + 1 + S" by simp
    with True jm i len show ?thesis by simp
  next
    case False
    with fillInv_D(2) [OF fill j] i j m len show ?thesis by (simp add: rankOf_update)
  qed
  have c: "rankOf ?us (N - 1 - j) = 4 \<and> (\<forall>i<N. rankOf ?us i \<le> 4) \<longrightarrow> sh ! j = of_nat N"
  proof
    assume h: "rankOf ?us (N - 1 - j) = 4 \<and> (\<forall>i<N. rankOf ?us i \<le> 4)"
    then have ne: "N - 1 - j \<noteq> i" using i len by (auto simp: rankOf_update)
    with h i len have r4: "rankOf us (N - 1 - j) = 4" by (simp add: rankOf_update)
    from h have h2: "\<forall>x<N. rankOf ?us x \<le> 4" by blast
    have "rankOf us i \<le> labelRank (pc (?us ! i))" using ri i len by simp
    then have "\<forall>x<N. rankOf us x \<le> 4"
      using all_le_old [OF h2 _ i len(1)] i len by simp
    with fillInv_D(3) [OF fill j r4] show "sh ! j = of_nat N" by blast
  qed
  from a b c show "(1 \<le> rankOf ?us j \<and> rankOf ?us (N - 1 - j) \<le> 3 \<longrightarrow> sh ! j = of_nat j + 1 + S) \<and>
        (rankOf ?us (N - 1 - j) = 3 \<longrightarrow> reg (?us ! (N - 1 - j)) = of_nat j + 1 + S) \<and>
        (rankOf ?us (N - 1 - j) = 4 \<and> (\<forall>i<N. rankOf ?us i \<le> 4) \<longrightarrow> sh ! j = of_nat N)"
    by blast
qed

lemma fillInv_step_Store:
  assumes sync: "syncInv N us" and fill: "fillInv S N sh us"
    and i: "i < N" and len: "length us = N" "length sh = N"
    and pc: "pc (us ! i) = L_Store"
  shows "fillInv S N (sh[N - 1 - i := reg (us ! i) + (of_nat i - S)])
           (us[i := (us ! i)\<lparr>pc := L_Sync2\<rparr>])"
  unfolding fillInv_def
proof (intro allI impI)
  fix j assume j: "j < N"
  then have m: "N - 1 - j < N" by simp
  have ri: "rankOf us i = 3" using pc by (simp add: rankOf_def)
  have mi: "N - 1 - i < N" using i by simp
  have eq: "N - 1 - j = i \<longleftrightarrow> j = N - 1 - i" using i j by auto
  let ?us = "us[i := (us ! i)\<lparr>pc := L_Sync2\<rparr>]"
  let ?sh = "sh[N - 1 - i := reg (us ! i) + (of_nat i - S)]"
  have a: "1 \<le> rankOf ?us j \<and> rankOf ?us (N - 1 - j) \<le> 3 \<longrightarrow> ?sh ! j = of_nat j + 1 + S"
    using fillInv_D(1) [OF fill j] i j m mi len ri eq
    by (cases "j = i"; cases "N - 1 - j = i") (simp_all add: rankOf_update)
  have b: "rankOf ?us (N - 1 - j) = 3 \<longrightarrow> reg (?us ! (N - 1 - j)) = of_nat j + 1 + S"
    using fillInv_D(2) [OF fill j] i j m len
    by (cases "N - 1 - j = i") (simp_all add: rankOf_update)
  have c: "rankOf ?us (N - 1 - j) = 4 \<and> (\<forall>i<N. rankOf ?us i \<le> 4) \<longrightarrow> ?sh ! j = of_nat N"
  proof (cases "N - 1 - j = i")
    case True
    then have jm: "j = N - 1 - i" using eq by simp
    from fillInv_D(2) [OF fill j] True ri have "reg (us ! i) = of_nat j + 1 + S" by simp
    moreover have "(of_nat j + 1 + of_nat i :: u32) = of_nat N"
    proof -
      have "j + 1 + i = N" using jm i by simp
      then have "(of_nat (j + 1 + i) :: u32) = of_nat N" by simp
      then show ?thesis by (simp add: add.commute add.left_commute)
    qed
    moreover have "of_nat j + 1 + S + (of_nat i - S) = (of_nat j + 1 + of_nat i :: u32)"
      by (simp add: algebra_simps)
    ultimately have "reg (us ! i) + (of_nat i - S) = of_nat N" by (simp only:)
    with jm mi len show ?thesis by simp
  next
    case False
    show ?thesis
    proof
      assume h: "rankOf ?us (N - 1 - j) = 4 \<and> (\<forall>i<N. rankOf ?us i \<le> 4)"
      with False i len have r4: "rankOf us (N - 1 - j) = 4" by (simp add: rankOf_update)
      from h have h2: "\<forall>x<N. rankOf ?us x \<le> 4" by blast
      have "rankOf us i \<le> labelRank (pc (?us ! i))" using ri i len by simp
      then have "\<forall>x<N. rankOf us x \<le> 4"
        using all_le_old [OF h2 _ i len(1)] i len by simp
      with fillInv_D(3) [OF fill j r4] have "sh ! j = of_nat N" by blast
      with False eq show "?sh ! j = of_nat N" by simp
    qed
  qed
  from a b c show "(1 \<le> rankOf ?us j \<and> rankOf ?us (N - 1 - j) \<le> 3 \<longrightarrow> ?sh ! j = of_nat j + 1 + S) \<and>
        (rankOf ?us (N - 1 - j) = 3 \<longrightarrow> reg (?us ! (N - 1 - j)) = of_nat j + 1 + S) \<and>
        (rankOf ?us (N - 1 - j) = 4 \<and> (\<forall>i<N. rankOf ?us i \<le> 4) \<longrightarrow> ?sh ! j = of_nat N)"
    by blast
qed

lemma finite_doneAdds: "finite (doneAdds N us)"
  by (rule finite_subset [of _ "{..<N}"]) (auto simp: doneAdds_def)

lemma doneAdds_update:
  assumes "i < N" "length us = N"
  shows "doneAdds N (us[i := u']) =
     (if 0 < i \<and> 7 \<le> labelRank (pc u') then insert i (doneAdds N us) else doneAdds N us - {i})"
  using assms by (auto simp: doneAdds_def rankOf_update)

lemma doneAdds_same:
  assumes "i < N" "length us = N" "7 \<le> labelRank (pc u') \<longleftrightarrow> 7 \<le> rankOf us i"
  shows "doneAdds N (us[i := u']) = doneAdds N us"
  using assms by (auto simp: doneAdds_def rankOf_update)

lemma doneAdds_zero:
  assumes "length us = N" "0 < N"
  shows "doneAdds N (us[0 := u']) = doneAdds N us"
  using assms by (auto simp: doneAdds_def rankOf_update)

lemma doneAdds_add:
  assumes "i < N" "length us = N" "0 < i" "rankOf us i < 7" "7 \<le> labelRank (pc u')"
  shows "doneAdds N (us[i := u']) = insert i (doneAdds N us)" "i \<notin> doneAdds N us"
  using assms by (auto simp: doneAdds_def rankOf_update)

lemma doneAdds_all:
  assumes "\<forall>i<N. 7 \<le> rankOf us i"
  shows "doneAdds N us = {0<..<N}"
  using assms by (auto simp: doneAdds_def)

lemma sum_from_zero:
  fixes f :: "nat \<Rightarrow> u32"
  assumes "0 < N"
  shows "f 0 + (\<Sum>i\<in>{0<..<N}. f i) = (\<Sum>i<N. f i)"
proof -
  have "{..<N} = insert 0 {0<..<N}" using assms by auto
  then show ?thesis by simp
qed

lemma accInv_D:
  assumes "accInv c N sh us"
  shows "0 < j \<Longrightarrow> j < N \<Longrightarrow> sh ! j = c ! j"
    and "0 < N \<Longrightarrow> sh ! 0 = c ! 0 + (\<Sum>i\<in>doneAdds N us. c ! i)"
    and "i < N \<Longrightarrow> rankOf us i = 6 \<Longrightarrow> 0 < i \<and> reg (us ! i) = c ! i"
  using assms unfolding accInv_def by blast+

lemma accInv_I:
  assumes "\<And>j. 0 < j \<Longrightarrow> j < N \<Longrightarrow> sh ! j = c ! j"
    and "0 < N \<Longrightarrow> sh ! 0 = c ! 0 + (\<Sum>i\<in>doneAdds N us. c ! i)"
    and "\<And>i. i < N \<Longrightarrow> rankOf us i = 6 \<Longrightarrow> 0 < i \<and> reg (us ! i) = c ! i"
  shows "accInv c N sh us"
  using assms unfolding accInv_def by blast

text \<open>A step that changes neither the shared memory nor whether the unit has added,
  and does not end at the atomic operation.\<close>
lemma accInv_step_quiet:
  assumes acc: "accInv c N sh us" and i: "i < N" and len: "length us = N"
    and r7: "7 \<le> labelRank (pc u') \<longleftrightarrow> 7 \<le> rankOf us i" and r6: "labelRank (pc u') \<noteq> 6"
  shows "accInv c N sh (us[i := u'])"
proof (rule accInv_I)
  fix j assume "0 < j" "j < N"
  then show "sh ! j = c ! j" by (rule accInv_D(1) [OF acc])
next
  assume "0 < N"
  then show "sh ! 0 = c ! 0 + (\<Sum>i\<in>doneAdds N (us[i := u']). c ! i)"
    using accInv_D(2) [OF acc] doneAdds_same [OF i len r7] by simp
next
  fix x assume x: "x < N" "rankOf (us[i := u']) x = 6"
  with r6 i len have ne: "x \<noteq> i" by (auto simp: rankOf_update)
  with x i len have "rankOf us x = 6" by (simp add: rankOf_update)
  from accInv_D(3) [OF acc x(1) this] ne show "0 < x \<and> reg (us[i := u'] ! x) = c ! x" by simp
qed

lemma accInv_step:
  assumes acc: "accInv c N sh us" and i: "i < N" and len: "length us = N" "length sh = N"
    and r4: "4 \<le> rankOf us i"
    and eff: "effect k uiMult2 N b i (us ! i) sh gl = (u', sh', gl')"
  shows "accInv c N sh' (us[i := u'])"
proof (cases "pc (us ! i)")
  case L_AtomicArg
  show ?thesis
  proof (cases "0 < i")
    case False
    with eff L_AtomicArg have e: "u' = (us ! i)\<lparr>pc := L_Sync3\<rparr>" "sh' = sh"
      by (auto simp: effect_def)
    from False have i0: "i = 0" by simp
    show ?thesis unfolding e
    proof (rule accInv_I)
      fix j assume "0 < j" "j < N"
      then show "sh ! j = c ! j" by (rule accInv_D(1) [OF acc])
    next
      assume "0 < N"
      then show "sh ! 0 = c ! 0 + (\<Sum>x\<in>doneAdds N (us[i := (us ! i)\<lparr>pc := L_Sync3\<rparr>]). c ! x)"
        using accInv_D(2) [OF acc] doneAdds_zero [OF len(1)] i0 by simp
    next
      fix x assume x: "x < N" "rankOf (us[i := (us ! i)\<lparr>pc := L_Sync3\<rparr>]) x = 6"
      with i len have ne: "x \<noteq> i" by (auto simp: rankOf_update)
      with x i len have "rankOf us x = 6" by (simp add: rankOf_update)
      from accInv_D(3) [OF acc x(1) this] ne
      show "0 < x \<and> reg (us[i := (us ! i)\<lparr>pc := L_Sync3\<rparr>] ! x) = c ! x" by simp
    qed
  next
    case True
    with eff L_AtomicArg have e: "u' = (us ! i)\<lparr>pc := L_Atomic, reg := sh ! i\<rparr>" "sh' = sh"
      by (auto simp: effect_def)
    have r: "rankOf us i = 5" using L_AtomicArg by (simp add: rankOf_def)
    show ?thesis unfolding e
    proof (rule accInv_I)
      fix j assume "0 < j" "j < N"
      then show "sh ! j = c ! j" by (rule accInv_D(1) [OF acc])
    next
      assume "0 < N"
      then show "sh ! 0 = c ! 0 + (\<Sum>x\<in>doneAdds N (us[i := (us ! i)\<lparr>pc := L_Atomic, reg := sh ! i\<rparr>]). c ! x)"
        using accInv_D(2) [OF acc] doneAdds_same [OF i len(1), of "(us ! i)\<lparr>pc := L_Atomic, reg := sh ! i\<rparr>"] r
        by simp
    next
      fix x assume x: "x < N" "rankOf (us[i := (us ! i)\<lparr>pc := L_Atomic, reg := sh ! i\<rparr>]) x = 6"
      show "0 < x \<and> reg (us[i := (us ! i)\<lparr>pc := L_Atomic, reg := sh ! i\<rparr>] ! x) = c ! x"
      proof (cases "x = i")
        case True
        with \<open>0 < i\<close> i len accInv_D(1) [OF acc \<open>0 < i\<close> i] show ?thesis by simp
      next
        case False
        with x i len have "rankOf us x = 6" by (simp add: rankOf_update)
        from accInv_D(3) [OF acc x(1) this] False show ?thesis by simp
      qed
    qed
  qed
next
  case L_Atomic
  with eff have e: "u' = (us ! i)\<lparr>pc := L_Sync3\<rparr>" "sh' = sh[0 := sh ! 0 + reg (us ! i)]"
    by (auto simp: effect_def)
  have r: "rankOf us i = 6" using L_Atomic by (simp add: rankOf_def)
  from accInv_D(3) [OF acc i r] have ipos: "0 < i" and regi: "reg (us ! i) = c ! i" by simp_all
  have N: "0 < N" using i by simp
  note da = doneAdds_add [OF i len(1) ipos, of "(us ! i)\<lparr>pc := L_Sync3\<rparr>"]
  show ?thesis unfolding e
  proof (rule accInv_I)
    fix j assume "0 < j" "j < N"
    then show "sh[0 := sh ! 0 + reg (us ! i)] ! j = c ! j" using accInv_D(1) [OF acc] by simp
  next
    have "doneAdds N (us[i := (us ! i)\<lparr>pc := L_Sync3\<rparr>]) = insert i (doneAdds N us)"
      and "i \<notin> doneAdds N us"
      using da r by simp_all
    then have "(\<Sum>x\<in>doneAdds N (us[i := (us ! i)\<lparr>pc := L_Sync3\<rparr>]). c ! x)
                 = c ! i + (\<Sum>x\<in>doneAdds N us. c ! x)"
      using finite_doneAdds by simp
    then show "sh[0 := sh ! 0 + reg (us ! i)] ! 0
                 = c ! 0 + (\<Sum>x\<in>doneAdds N (us[i := (us ! i)\<lparr>pc := L_Sync3\<rparr>]). c ! x)"
      using accInv_D(2) [OF acc N] regi N len by (simp add: add.commute add.left_commute)
  next
    fix x assume x: "x < N" "rankOf (us[i := (us ! i)\<lparr>pc := L_Sync3\<rparr>]) x = 6"
    with i len have ne: "x \<noteq> i" by (auto simp: rankOf_update)
    with x i len have "rankOf us x = 6" by (simp add: rankOf_update)
    from accInv_D(3) [OF acc x(1) this] ne
    show "0 < x \<and> reg (us[i := (us ! i)\<lparr>pc := L_Sync3\<rparr>] ! x) = c ! x" by simp
  qed
next
  case L_Sync2
  with eff have e: "sh' = sh" "pc u' = L_AtomicArg" by (auto simp: effect_def)
  show ?thesis unfolding e(1)
    using L_Sync2 e(2) by (intro accInv_step_quiet [OF acc i len(1)]) (simp_all add: rankOf_def)
next
  case L_Sync3
  with eff have e: "sh' = sh" "pc u' = L_Master" by (auto simp: effect_def)
  show ?thesis unfolding e(1)
    using L_Sync3 e(2) by (intro accInv_step_quiet [OF acc i len(1)]) (simp_all add: rankOf_def)
next
  case L_Master
  with eff have e: "sh' = sh" "pc u' = L_Write \<or> pc u' = L_Done"
    by (auto simp: effect_def split: if_splits)
  show ?thesis unfolding e(1)
    using L_Master e(2) by (intro accInv_step_quiet [OF acc i len(1)]) (auto simp: rankOf_def)
next
  case L_Write
  with eff have e: "sh' = sh" "pc u' = L_Done" by (auto simp: effect_def)
  show ?thesis unfolding e(1)
    using L_Write e(2) by (intro accInv_step_quiet [OF acc i len(1)]) (simp_all add: rankOf_def)
next
  case L_Done
  with eff have e: "sh' = sh" "pc u' = L_Done" by (auto simp: effect_def)
  show ?thesis unfolding e(1)
    using L_Done e(2) by (intro accInv_step_quiet [OF acc i len(1)]) (simp_all add: rankOf_def)
next
  case L_Fill
  with r4 show ?thesis by (simp add: rankOf_def)
next
  case L_Sync1
  with r4 show ?thesis by (simp add: rankOf_def)
next
  case L_Load
  with r4 show ?thesis by (simp add: rankOf_def)
next
  case L_Store
  with r4 show ?thesis by (simp add: rankOf_def)
qed

lemma effect_length:
  "effect k uiMult2 N b i u sh gl = (u', sh', gl') \<Longrightarrow> length sh' = length sh \<and> length gl' = length gl"
  by (cases "pc u") (auto simp: effect_def split: if_splits)

lemma effect_idxCtx:
  "effect k uiMult2 N b i u sh gl = (u', sh', gl') \<Longrightarrow> idxCtx u' = idxCtx u"
  by (cases "pc u") (auto simp: effect_def split: if_splits)

lemma fillInv_step:
  assumes sync: "syncInv N us" and fill: "fillInv S N sh us"
    and S: "S = uselessSum (TuiNumUselessWork k)"
    and i: "i < N" and len: "length us = N" "length sh = N"
    and mv: "mayMove us N i"
    and eff: "effect k uiMult2 N b i (us ! i) sh gl = (u', sh', gl')"
  shows "fillInv S N sh' (us[i := u'])"
proof -
  note sync' = syncInv_step [OF sync i len(1) mv eff]
  have late: ?thesis if r: "4 \<le> rankOf us i" "5 \<le> labelRank (pc u')"
  proof (rule fillInv_late [where i = i])
    have ri: "4 < rankOf (us[i := u']) i" using r(2) i len by (simp add: rankOf_update)
    show "\<forall>j<N. 4 \<le> rankOf (us[i := u']) j"
      using syncInv_D(2) [OF sync' i _ ri] by blast
    show "i < N" by (rule i)
    show "5 \<le> rankOf (us[i := u']) i" using r(2) i len by (simp add: rankOf_update)
  qed
  note pc' = effect_pc [OF eff]
  show ?thesis
  proof (cases "pc (us ! i)")
    case L_Fill
    with eff S have e: "u' = (us ! i)\<lparr>pc := L_Sync1\<rparr>" "sh' = sh[i := of_nat i + 1 + S]"
      by (auto simp: effect_def)
    show ?thesis unfolding e by (rule fillInv_step_Fill [OF sync fill i len L_Fill])
  next
    case L_Sync1
    with eff have e: "u' = (us ! i)\<lparr>pc := L_Load\<rparr>" "sh' = sh"
      by (auto simp: effect_def)
    show ?thesis unfolding e by (rule fillInv_step_Sync1 [OF sync fill i len L_Sync1])
  next
    case L_Load
    with eff have e: "u' = (us ! i)\<lparr>pc := L_Store, reg := sh ! (N - 1 - i)\<rparr>" "sh' = sh"
      by (auto simp: effect_def)
    show ?thesis unfolding e by (rule fillInv_step_Load [OF sync fill i len L_Load])
  next
    case L_Store
    with eff S have e: "u' = (us ! i)\<lparr>pc := L_Sync2\<rparr>"
      "sh' = sh[N - 1 - i := reg (us ! i) + (of_nat i - S)]"
      by (auto simp: effect_def)
    show ?thesis unfolding e by (rule fillInv_step_Store [OF sync fill i len L_Store])
  next
    case L_Sync2
    with pc' show ?thesis by (intro late) (simp_all add: rankOf_def)
  next
    case L_AtomicArg
    with pc' show ?thesis by (intro late) (simp_all add: rankOf_def)
  next
    case L_Atomic
    with pc' show ?thesis by (intro late) (simp_all add: rankOf_def)
  next
    case L_Sync3
    with pc' show ?thesis by (intro late) (simp_all add: rankOf_def)
  next
    case L_Master
    with pc' show ?thesis by (intro late) (simp_all add: rankOf_def)
  next
    case L_Write
    with pc' show ?thesis by (intro late) (simp_all add: rankOf_def)
  next
    case L_Done
    with pc' show ?thesis by (intro late) (simp_all add: rankOf_def)
  qed
qed

lemma effect_Write_only:
  assumes "effect k uiMult2 N b i u sh gl = (u', sh', gl')" "pc u' = L_Write"
  shows "pc u = L_Master \<and> i = 0 \<and> reg u' = sh ! 0"
  using assms by (cases "pc u") (auto simp: effect_def split: if_splits)

lemma outInv_step:
  assumes sync: "syncInv N us"
    and acc: "(\<forall>i<N. 4 \<le> rankOf us i) \<longrightarrow> accInv c N sh us"
    and out: "outInv c N us"
    and i: "i < N" and len: "length us = N"
    and eff: "effect k uiMult2 N b i (us ! i) sh gl = (u', sh', gl')"
  shows "outInv c N (us[i := u'])"
  unfolding outInv_def
proof (intro allI impI)
  fix x assume x: "x < N" and r9: "rankOf (us[i := u']) x = 9"
  show "x = 0 \<and> reg (us[i := u'] ! x) = (\<Sum>i<N. c ! i)"
  proof (cases "x = i")
    case False
    with r9 i len have "rankOf us x = 9" by (simp add: rankOf_update)
    with out x have x0: "x = 0" and rx: "reg (us ! x) = (\<Sum>i<N. c ! i)"
      unfolding outInv_def by blast+
    from False have "us[i := u'] ! x = us ! x" by simp
    with x0 rx show ?thesis by (simp only:)
  next
    case True
    with r9 i len have "labelRank (pc u') = 9" by (simp add: rankOf_update)
    then have "pc u' = L_Write" by (cases "pc u'") simp_all
    from effect_Write_only [OF eff this]
    have pcm: "pc (us ! i) = L_Master" and i0: "i = 0" and reg': "reg u' = sh ! 0" by blast+
    have ri: "7 < rankOf us i" using pcm by (simp add: rankOf_def)
    have all7: "\<forall>j<N. 7 \<le> rankOf us j" using syncInv_D(3) [OF sync i _ ri] by blast
    then have "\<forall>j<N. 4 \<le> rankOf us j" by (meson le_trans numeral_le_iff semiring_norm(69,72,76) order.refl)
    with acc have a: "accInv c N sh us" by blast
    have N: "0 < N" using i by simp
    from accInv_D(2) [OF a N] doneAdds_all [OF all7]
    have "sh ! 0 = c ! 0 + (\<Sum>i\<in>{0<..<N}. c ! i)" by simp
    also have "\<dots> = (\<Sum>i<N. c ! i)" using N by (rule sum_from_zero)
    finally show ?thesis using True i0 reg' i len by simp
  qed
qed

lemma list_all_rank:
  "list_all (\<lambda>v. r \<le> labelRank (pc v)) us \<longleftrightarrow> (\<forall>j<length us. r \<le> rankOf us j)"
  by (simp add: list_all_length rankOf_def)

lemma blocked_iff:
  assumes "rendezvous backend N" "length (units blk) = N" "i < N"
  shows "(isBarrier (pc (units blk ! i)) \<and> \<not> barrierOpen backend blk (pc (units blk ! i)))
           \<longleftrightarrow> \<not> mayMove (units blk) N i"
proof (cases "backend = AccSerial")
  case False
  then show ?thesis
    using assms(2) by (auto simp: barrierOpen_def mayMove_def list_all_rank rankOf_def)
next
  case True
  with assms(1) have "N \<le> 1" by (simp add: rendezvous_def)
  with assms(3) have "N = 1" "i = 0" by simp_all
  with True show ?thesis by (simp add: barrierOpen_def mayMove_def)
qed

lemma stepBlock_cases:
  assumes wf: "wfBlock ws b blk" and i: "i < getSize_Block_Kernels_Linear ws"
    and b: "b < length gl"
  shows "stepBlock backend k ws uiMult2 blk gl i =
     Inr (if isBarrier (pc (units blk ! i)) \<and> \<not> barrierOpen backend blk (pc (units blk ! i))
          then (blk, gl)
          else (case effect k uiMult2 (getSize_Block_Kernels_Linear ws) b i (units blk ! i)
                      (shared blk) gl of
                  (u', sh', gl') \<Rightarrow> (\<lparr>shared = sh', units = (units blk)[i := u']\<rparr>, gl')))"
proof -
  let ?N = "getSize_Block_Kernels_Linear ws"
  from wf i have at: "unitAt ws ?N b i (units blk ! i)" and lu: "length (units blk) = ?N"
    and ls: "length (shared blk) = ?N"
    by (simp_all add: wfBlock_def)
  have "kernelStep k ws uiMult2 (units blk ! i) (shared blk) gl =
          Inr (effect k uiMult2 ?N b i (units blk ! i) (shared blk) gl)"
    unfolding effect_def by (rule kernelStep_at [OF at ls b])
  then show ?thesis
    using i lu by (simp add: stepBlock_def Let_def split: prod.splits)
qed

lemma stepBlock_rendezvous:
  assumes wf: "wfBlock ws b blk" and i: "i < getSize_Block_Kernels_Linear ws"
    and b: "b < length gl" and rv: "rendezvous backend (getSize_Block_Kernels_Linear ws)"
  shows "stepBlock backend k ws uiMult2 blk gl i =
     Inr (if mayMove (units blk) (getSize_Block_Kernels_Linear ws) i
          then (case effect k uiMult2 (getSize_Block_Kernels_Linear ws) b i (units blk ! i)
                      (shared blk) gl of
                  (u', sh', gl') \<Rightarrow> (\<lparr>shared = sh', units = (units blk)[i := u']\<rparr>, gl'))
          else (blk, gl))"
proof -
  from wf have lu: "length (units blk) = getSize_Block_Kernels_Linear ws"
    by (simp add: wfBlock_def)
  show ?thesis
    unfolding stepBlock_cases [OF wf i b] blocked_iff [OF rv lu i] by simp
qed

lemma wfBlock_step:
  assumes wf: "wfBlock ws b blk" and i: "i < getSize_Block_Kernels_Linear ws"
    and eff: "effect k uiMult2 (getSize_Block_Kernels_Linear ws) b i (units blk ! i) (shared blk) gl
                = (u', sh', gl')"
  shows "wfBlock ws b \<lparr>shared = sh', units = (units blk)[i := u']\<rparr>"
proof -
  let ?N = "getSize_Block_Kernels_Linear ws"
  note ctx = effect_idxCtx [OF eff] and len = effect_length [OF eff]
  from wf have lu: "length (units blk) = ?N" and ls: "length (shared blk) = ?N"
    and at: "\<And>j. j < ?N \<Longrightarrow> unitAt ws ?N b j (units blk ! j)"
    by (simp_all add: wfBlock_def)
  have "unitAt ws ?N b j ((units blk)[i := u'] ! j)" if j: "j < ?N" for j
  proof (cases "j = i")
    case True
    with at [OF i] ctx i lu show ?thesis by (simp add: unitAt_def)
  next
    case False
    with at [OF j] show ?thesis by simp
  qed
  with lu ls len show ?thesis by (simp add: wfBlock_def)
qed

lemma blockInv_step:
  assumes inv: "blockInv S c N sh us" and c: "c = replicate N (of_nat N)"
    and S: "S = uselessSum (TuiNumUselessWork k)"
    and i: "i < N" and mv: "mayMove us N i"
    and eff: "effect k uiMult2 N b i (us ! i) sh gl = (u', sh', gl')"
  shows "blockInv S c N sh' (us[i := u'])"
proof -
  from inv have len: "length us = N" "length sh = N" and sync: "syncInv N us"
    and fill: "fillInv S N sh us"
    and acc: "(\<forall>i<N. 4 \<le> rankOf us i) \<longrightarrow> accInv c N sh us"
    and out: "outInv c N us"
    by (simp_all add: blockInv_def)
  note sync' = syncInv_step [OF sync i len(1) mv eff]
  note fill' = fillInv_step [OF sync fill S i len mv eff]
  note out' = outInv_step [OF sync acc out i len(1) eff]
  note len' = effect_length [OF eff]
  have acc': "accInv c N sh' (us[i := u'])" if post: "\<forall>x<N. 4 \<le> rankOf (us[i := u']) x"
  proof (cases "\<forall>x<N. 4 \<le> rankOf us x")
    case True
    with acc i show ?thesis by (intro accInv_step [OF _ i len _ eff]) blast+
  next
    case False
    then obtain y where y: "y < N" "rankOf us y < 4" by (auto simp: not_le)
    have yi: "y = i"
    proof (rule ccontr)
      assume "y \<noteq> i"
      with post y i len show False by (auto simp: rankOf_update)
    qed
    have others: "rankOf us x = 4" if x: "x < N" "x \<noteq> i" for x
    proof -
      from post x i len have ge: "4 \<le> rankOf us x" by (auto simp: rankOf_update)
      have "\<not> 4 < rankOf us x"
      proof
        assume "4 < rankOf us x"
        from syncInv_D(2) [OF sync x(1) i this] y yi show False by simp
      qed
      with ge show ?thesis by simp
    qed
    from post i len have "4 \<le> labelRank (pc u')" by (auto simp: rankOf_update)
    with effect_pc [OF eff] y yi have pcs: "pc (us ! i) = L_Store" "pc u' = L_Sync2"
      by (cases "pc (us ! i)"; simp add: rankOf_def)+
    have all4: "rankOf (us[i := u']) x = 4" if x: "x < N" for x
      using others [OF x] pcs(2) x i len by (cases "x = i") (simp_all add: rankOf_update)
    then have le4: "\<forall>x<N. rankOf (us[i := u']) x \<le> 4" by simp
    show ?thesis
    proof (rule accInv_I)
      fix j assume j: "0 < j" "j < N"
      then have "N - 1 - j < N" by simp
      from fillInv_D(3) [OF fill' j(2) all4 [OF this] le4] j c show "sh' ! j = c ! j" by simp
    next
      assume N: "0 < N"
      then have "N - 1 - 0 < N" by simp
      from fillInv_D(3) [OF fill' N all4 [OF this] le4] N c have "sh' ! 0 = c ! 0" by simp
      moreover have "doneAdds N (us[i := u']) = {}" using all4 by (auto simp: doneAdds_def)
      ultimately show "sh' ! 0 = c ! 0 + (\<Sum>i\<in>doneAdds N (us[i := u']). c ! i)" by simp
    next
      fix x assume "x < N" "rankOf (us[i := u']) x = 6"
      with all4 show "0 < x \<and> reg (us[i := u'] ! x) = c ! x" by simp
    qed
  qed
  from len len' sync' fill' acc' out' show ?thesis by (simp add: blockInv_def)
qed

lemma blockInv_init:
  assumes "length us = N" "length sh = N" "\<forall>i<N. pc (us ! i) = L_Fill"
  shows "blockInv S c N sh us"
proof -
  have r: "\<And>i. i < N \<Longrightarrow> rankOf us i = 0" using assms(3) by (simp add: rankOf_def)
  have "syncInv N us" using r by (auto simp: syncInv_def)
  moreover have "fillInv S N sh us" 
    unfolding fillInv_def
  proof (intro allI impI)
    fix j assume "j < N"
    then have "rankOf us j = 0" "rankOf us (N - 1 - j) = 0" using r by simp_all
    then show "(1 \<le> rankOf us j \<and> rankOf us (N - 1 - j) \<le> 3 \<longrightarrow> sh ! j = of_nat j + 1 + S) \<and>
        (rankOf us (N - 1 - j) = 3 \<longrightarrow> reg (us ! (N - 1 - j)) = of_nat j + 1 + S) \<and>
        (rankOf us (N - 1 - j) = 4 \<and> (\<forall>i<N. rankOf us i \<le> 4) \<longrightarrow> sh ! j = of_nat N)"
      by simp
  qed
  moreover have "(\<forall>i<N. 4 \<le> rankOf us i) \<longrightarrow> accInv c N sh us"
  proof
    assume a: "\<forall>i<N. 4 \<le> rankOf us i"
    have "N = 0"
    proof (rule ccontr)
      assume "N \<noteq> 0"
      then have "0 < N" by simp
      with a r [of 0] show False by auto
    qed
    then show "accInv c N sh us" by (simp add: accInv_def)
  qed
  moreover have "outInv c N us" using r by (simp add: outInv_def)
  ultimately show ?thesis using assms(1,2) by (simp add: blockInv_def)
qed

lemma sum_replicate_u32: "(\<Sum>i<N. replicate N (x :: u32) ! i) = of_nat N * x"
  by simp

lemma effect_global:
  "effect k uiMult2 N b i u sh gl = (u', sh', gl') \<Longrightarrow>
     gl' = (if pc u = L_Write then gl[b := reg u * m_uiMult k * uiMult2] else gl)"
  by (cases "pc u") (auto simp: effect_def split: if_splits)

lemma effect_done:
  "effect k uiMult2 N b i u sh gl = (u', sh', gl') \<Longrightarrow>
     labelRank (pc u') = 10 \<longleftrightarrow> pc u = L_Write \<or> pc u = L_Done \<or> (pc u = L_Master \<and> i \<noteq> 0)"
  by (drule effect_pc) (cases "pc u", simp_all)

lemma gridInv_D:
  assumes "gridInv ws k uiMult2 gl0 g"
  shows "length (blocks g) = getSize_Grid_Blocks_Linear ws"
    and "length (global g) = length gl0"
    and "b < getSize_Grid_Blocks_Linear ws \<Longrightarrow> wfBlock ws b (blocks g ! b)"
    and "b < getSize_Grid_Blocks_Linear ws \<Longrightarrow>
           blockInv (uselessSum (TuiNumUselessWork k))
             (replicate (getSize_Block_Kernels_Linear ws) (of_nat (getSize_Block_Kernels_Linear ws)))
             (getSize_Block_Kernels_Linear ws) (shared (blocks g ! b)) (units (blocks g ! b))"
    and "x < length gl0 \<Longrightarrow> global g ! x =
          (if x < getSize_Grid_Blocks_Linear ws \<and> 0 < getSize_Block_Kernels_Linear ws \<and>
              rankOf (units (blocks g ! x)) 0 = 10
           then outValue k uiMult2 (getSize_Block_Kernels_Linear ws) else gl0 ! x)"
  using assms unfolding gridInv_def by blast+

lemma stepUnit_outside:
  assumes "length (blocks g) = G" "b < G \<longrightarrow> length (units (blocks g ! b)) \<le> i"
  shows "stepUnit backend k ws uiMult2 g (b, i) = Inr g"
proof (cases "b < G")
  case False
  with assms(1) show ?thesis by (simp add: stepUnit_def)
next
  case True
  with assms have "stepBlock backend k ws uiMult2 (blocks g ! b) (global g) i
                     = Inr (blocks g ! b, global g)"
    by (simp add: stepBlock_def)
  with True assms(1) show ?thesis by (simp add: stepUnit_def)
qed

lemma gridInv_step:
  assumes inv: "gridInv ws k uiMult2 gl0 g"
    and fit: "getSize_Grid_Blocks_Linear ws \<le> length gl0"
    and rv: "rendezvous backend (getSize_Block_Kernels_Linear ws)"
  shows "\<exists>g'. stepUnit backend k ws uiMult2 g bi = Inr g' \<and> gridInv ws k uiMult2 gl0 g'"
proof -
  let ?G = "getSize_Grid_Blocks_Linear ws" and ?N = "getSize_Block_Kernels_Linear ws"
  let ?c = "replicate ?N (of_nat ?N :: u32)" and ?S = "uselessSum (TuiNumUselessWork k)"
  obtain b i where bi: "bi = (b, i)" by (cases bi)
  note lb = gridInv_D(1) [OF inv] and lg = gridInv_D(2) [OF inv]
  show ?thesis
  proof (cases "b < ?G \<and> i < ?N")
    case False
    have "b < ?G \<longrightarrow> length (units (blocks g ! b)) \<le> i"
    proof
      assume b: "b < ?G"
      from gridInv_D(3) [OF inv b] have "length (units (blocks g ! b)) = ?N"
        by (simp add: wfBlock_def)
      with False b show "length (units (blocks g ! b)) \<le> i" by simp
    qed
    from stepUnit_outside [OF lb this] inv bi show ?thesis by simp
  next
    case True
    then have b: "b < ?G" and i: "i < ?N" by simp_all
    let ?blk = "blocks g ! b"
    note wf = gridInv_D(3) [OF inv b] and binv = gridInv_D(4) [OF inv b]
    from b fit lg have bg: "b < length (global g)" by simp
    show ?thesis
    proof (cases "mayMove (units ?blk) ?N i")
      case False
      with stepBlock_rendezvous [OF wf i bg rv]
      have "stepBlock backend k ws uiMult2 ?blk (global g) i = Inr (?blk, global g)" by simp
      with b lb have "stepUnit backend k ws uiMult2 g (b, i) = Inr g"
        by (simp add: stepUnit_def)
      with inv bi show ?thesis by simp
    next
      case mv: True
      obtain u' sh' gl' where eff:
        "effect k uiMult2 ?N b i (units ?blk ! i) (shared ?blk) (global g) = (u', sh', gl')"
        by (cases "effect k uiMult2 ?N b i (units ?blk ! i) (shared ?blk) (global g)")
      let ?blk' = "\<lparr>shared = sh', units = (units ?blk)[i := u']\<rparr>"
      let ?g' = "\<lparr>global = gl', blocks = (blocks g)[b := ?blk']\<rparr>"
      from stepBlock_rendezvous [OF wf i bg rv] mv eff
      have "stepBlock backend k ws uiMult2 ?blk (global g) i = Inr (?blk', gl')" by simp
      with b lb have step: "stepUnit backend k ws uiMult2 g (b, i) = Inr ?g'"
        by (simp add: stepUnit_def)
      note wf' = wfBlock_step [OF wf i eff]
      note binv' = blockInv_step [OF binv refl refl i mv eff]
      note gl'_eq = effect_global [OF eff]
      from wf have lu: "length (units ?blk) = ?N" by (simp add: wfBlock_def)
      have blocks': "wfBlock ws x (blocks ?g' ! x) \<and>
          blockInv ?S ?c ?N (shared (blocks ?g' ! x)) (units (blocks ?g' ! x))"
        if x: "x < ?G" for x
      proof (cases "x = b")
        case True
        with wf' binv' b lb show ?thesis by simp
      next
        case False
        with gridInv_D(3,4) [OF inv x] show ?thesis by simp
      qed
      have glob: "global ?g' ! x =
          (if x < ?G \<and> 0 < ?N \<and> rankOf (units (blocks ?g' ! x)) 0 = 10
           then outValue k uiMult2 ?N else gl0 ! x)"
        if x: "x < length gl0" for x
      proof (cases "x = b")
        case False
        then have "global ?g' ! x = global g ! x" using gl'_eq by simp
        moreover have "blocks ?g' ! x = blocks g ! x" using False by simp
        ultimately show ?thesis using gridInv_D(5) [OF inv x] by simp
      next
        case xb: True
        have N: "0 < ?N" using i by simp
        have r0: "rankOf (units ?blk') 0 =
            (if i = 0 then labelRank (pc u') else rankOf (units ?blk) 0)"
          using lu N i by (simp add: rankOf_update)
        show ?thesis
        proof (cases "pc (units ?blk ! i) = L_Write")
          case True
          then have r9: "rankOf (units ?blk) i = 9" by (simp add: rankOf_def)
          from binv have "outInv ?c ?N (units ?blk)" by (simp add: blockInv_def)
          with i r9 have i0: "i = 0" and regv: "reg (units ?blk ! i) = (\<Sum>i<?N. ?c ! i)"
            unfolding outInv_def by blast+
          from regv have "reg (units ?blk ! i) = of_nat ?N * of_nat ?N"
            by (simp only: sum_replicate_u32)
          with gl'_eq True have "gl' = (global g)[b := outValue k uiMult2 ?N]"
            by (simp add: outValue_def)
          moreover have "labelRank (pc u') = 10" using effect_done [OF eff] True by simp
          ultimately show ?thesis using xb b bg lb N r0 i0 by simp
        next
          case False
          with gl'_eq have same: "gl' = global g" by simp
          have "rankOf (units ?blk') 0 = 10 \<longleftrightarrow> rankOf (units ?blk) 0 = 10"
          proof (cases "i = 0")
            case True
            with effect_done [OF eff] False r0 show ?thesis
              by (cases "pc (units ?blk ! i)") (simp_all add: rankOf_def)
          next
            case False
            with r0 show ?thesis by simp
          qed
          with same xb b lb gridInv_D(5) [OF inv x] show ?thesis by simp
        qed
      qed
      have "length gl' = length gl0" using effect_length [OF eff] lg by simp
      with lb blocks' glob have "gridInv ws k uiMult2 gl0 ?g'" by (simp add: gridInv_def)
      with step bi show ?thesis by simp
    qed
  qed
qed

lemma runSchedule_inv:
  assumes fit: "getSize_Grid_Blocks_Linear ws \<le> length gl0"
    and rv: "rendezvous backend (getSize_Block_Kernels_Linear ws)"
  shows "gridInv ws k uiMult2 gl0 g \<Longrightarrow>
     \<exists>g'. runSchedule backend k ws uiMult2 sched g = Inr g' \<and> gridInv ws k uiMult2 gl0 g'"
proof (induction sched arbitrary: g)
  case Nil
  then show ?case by simp
next
  case (Cons bi sched)
  from gridInv_step [OF Cons.prems fit rv, of bi] obtain g1 where
    s: "stepUnit backend k ws uiMult2 g bi = Inr g1" and i: "gridInv ws k uiMult2 gl0 g1"
    by blast
  from Cons.IH [OF i] s show ?case by simp
qed

lemma unat_getBlockSharedExternMemSizeBytes:
  assumes "prodVec v * sizeofUint32 < 2 ^ 64"
  shows "unat (getBlockSharedExternMemSizeBytes v args) = prodVec v * sizeofUint32"
proof -
  have "unat (of_nat (prodVec v * sizeofUint32) :: size_t) = prodVec v * sizeofUint32"
    using assms by (simp add: unat_of_nat del: of_nat_mult)
  then show ?thesis by (simp add: getBlockSharedExternMemSizeBytes_def)
qed

lemma length_initBlock:
  "length (shared (initBlock ws cells uninit bc)) = cells"
  "length (units (initBlock ws cells uninit bc)) = prodVec (blockKernels ws)"
  by (simp_all add: initBlock_def length_coords)

lemma execute_cells:
  assumes "prodVec (blockKernels ws) * sizeofUint32 < 2 ^ 64"
  shows "execute backend k ws gl uiMult2 uninit sched =
     (case runSchedule backend k ws uiMult2
             (if backend = AccSerial then serialSchedule ws else sched)
             (initGrid ws (prodVec (blockKernels ws)) uninit gl) of
        Inl e \<Rightarrow> Some (Inl e)
      | Inr g \<Rightarrow> if allDone g then Some (Inr (global g)) else None)"
  using unat_getBlockSharedExternMemSizeBytes [OF assms, of "(gl, uiMult2)"]
  by (simp add: execute_def Let_def sizeofUint32_def)

lemma wfBlock_init:
  assumes N: "getSize_Block_Kernels_Linear ws < 2 ^ 32"
    and b: "b < getSize_Grid_Blocks_Linear ws" "getSize_Grid_Blocks_Linear ws \<le> 2 ^ 32"
  shows "wfBlock ws b
           (initBlock ws (getSize_Block_Kernels_Linear ws) uninit (coords (gridBlocks ws) ! b))"
proof -
  let ?N = "getSize_Block_Kernels_Linear ws"
  have lenc: "length (coords (blockKernels ws)) = ?N"
    by (simp add: length_coords getSize_Block_Kernels_Linear_def)
  have "unitAt ws ?N b i
          (units (initBlock ws ?N uninit (coords (gridBlocks ws) ! b)) ! i)" if i: "i < ?N" for i
  proof -
    have "linearize (blockKernels ws) (coords (blockKernels ws) ! i) = i"
      using i by (simp add: linearize_nth_coords getSize_Block_Kernels_Linear_def)
    moreover have "linearize (gridBlocks ws) (coords (gridBlocks ws) ! b) = b"
      using b by (simp add: linearize_nth_coords getSize_Grid_Blocks_Linear_def)
    moreover have "b < 2 ^ 32" using b by simp
    ultimately show ?thesis
      using i N lenc
      by (simp add: unitAt_def initBlock_def initUnit_def getIdx_Block_Kernels_Linear_def
            getIdx_Grid_Blocks_Linear_def)
  qed
  then show ?thesis using lenc by (simp add: wfBlock_def initBlock_def)
qed

lemma gridInv_init:
  assumes N: "getSize_Block_Kernels_Linear ws < 2 ^ 32"
    and G: "getSize_Grid_Blocks_Linear ws \<le> 2 ^ 32"
  shows "gridInv ws k uiMult2 gl (initGrid ws (getSize_Block_Kernels_Linear ws) uninit gl)"
proof -
  let ?G = "getSize_Grid_Blocks_Linear ws" and ?N = "getSize_Block_Kernels_Linear ws"
  let ?g = "initGrid ws ?N uninit gl"
  have lenG: "length (coords (gridBlocks ws)) = ?G"
    by (simp add: length_coords getSize_Grid_Blocks_Linear_def)
  have lenN: "length (coords (blockKernels ws)) = ?N"
    by (simp add: length_coords getSize_Block_Kernels_Linear_def)
  have blk: "blocks ?g ! b = initBlock ws ?N uninit (coords (gridBlocks ws) ! b)" if "b < ?G" for b
    using that lenG by (simp add: initGrid_def)
  have pcs: "pc (units (blocks ?g ! b) ! i) = L_Fill" if "b < ?G" "i < ?N" for b i
    using that lenN by (simp add: blk initBlock_def initUnit_def)
  have a: "wfBlock ws b (blocks ?g ! b)" if "b < ?G" for b
    using wfBlock_init [OF N that G] that by (simp add: blk)
  have b: "blockInv (uselessSum (TuiNumUselessWork k)) (replicate ?N (of_nat ?N)) ?N
             (shared (blocks ?g ! b)) (units (blocks ?g ! b))" if "b < ?G" for b
    using that lenN pcs by (intro blockInv_init) (simp_all add: blk initBlock_def)
  have c: "global ?g ! x =
          (if x < ?G \<and> 0 < ?N \<and> rankOf (units (blocks ?g ! x)) 0 = 10
           then outValue k uiMult2 ?N else gl ! x)" if "x < length gl" for x
  proof (cases "x < ?G \<and> 0 < ?N")
    case True
    with pcs [of x 0] have "rankOf (units (blocks ?g ! x)) 0 = 0" by (simp add: rankOf_def)
    then show ?thesis by (simp add: initGrid_def)
  next
    case False
    then show ?thesis by (auto simp: initGrid_def)
  qed
  have "length (blocks ?g) = ?G" "length (global ?g) = length gl"
    using lenG by (simp_all add: initGrid_def)
  with a b c show ?thesis unfolding gridInv_def by blast
qed

lemma allDone_rank:
  assumes "allDone g" "b < length (blocks g)" "i < length (units (blocks g ! b))"
  shows "rankOf (units (blocks g ! b)) i = 10"
  using assms by (simp add: allDone_def list_all_length rankOf_def)

lemma gridInv_final:
  assumes inv: "gridInv ws k uiMult2 gl0 g" and fin: "allDone g"
  shows "global g = expectedGlobal ws k uiMult2 gl0"
proof (rule nth_equalityI)
  show "length (global g) = length (expectedGlobal ws k uiMult2 gl0)"
    using gridInv_D(2) [OF inv] by (simp add: expectedGlobal_def)
next
  fix x assume "x < length (global g)"
  then have x: "x < length gl0" using gridInv_D(2) [OF inv] by simp
  let ?G = "getSize_Grid_Blocks_Linear ws" and ?N = "getSize_Block_Kernels_Linear ws"
  have "rankOf (units (blocks g ! x)) 0 = 10" if "x < ?G" "0 < ?N"
  proof -
    from gridInv_D(3) [OF inv that(1)] have "length (units (blocks g ! x)) = ?N"
      by (simp add: wfBlock_def)
    with that gridInv_D(1) [OF inv] show ?thesis by (intro allDone_rank [OF fin]) simp_all
  qed
  with gridInv_D(5) [OF inv x] x show "global g ! x = expectedGlobal ws k uiMult2 gl0 ! x"
    by (auto simp: expectedGlobal_def)
qed

lemma execute_rendezvous:
  assumes N: "getSize_Block_Kernels_Linear ws < 2 ^ 32"
    and G: "getSize_Grid_Blocks_Linear ws \<le> 2 ^ 32"
    and fit: "getSize_Grid_Blocks_Linear ws \<le> length gl"
    and rv: "rendezvous backend (getSize_Block_Kernels_Linear ws)"
  shows "execute backend k ws gl uiMult2 uninit sched = None \<or>
         execute backend k ws gl uiMult2 uninit sched = Some (Inr (expectedGlobal ws k uiMult2 gl))"
proof -
  let ?N = "getSize_Block_Kernels_Linear ws"
  let ?order = "if backend = AccSerial then serialSchedule ws else sched"
  have "prodVec (blockKernels ws) * sizeofUint32 < 2 ^ 64"
    using N by (simp add: getSize_Block_Kernels_Linear_def sizeofUint32_def)
  note ex = execute_cells [OF this, of backend k gl uiMult2 uninit sched]
  from runSchedule_inv [OF fit rv gridInv_init [OF N G], where sched = ?order and uninit1 = uninit
      and k = k and ?uiMult2.0 = uiMult2]
  obtain g where r: "runSchedule backend k ws uiMult2 ?order (initGrid ws ?N uninit gl) = Inr g"
    and inv: "gridInv ws k uiMult2 gl g"
    by blast
  show ?thesis
  proof (cases "allDone g")
    case True
    from gridInv_final [OF inv True] r True ex show ?thesis
      by (simp add: getSize_Block_Kernels_Linear_def)
  next
    case False
    with r ex show ?thesis by (simp add: getSize_Block_Kernels_Linear_def)
  qed
qed

section \<open>Progress: every execution can be completed\<close>

lemma stepUnit_effect:
  assumes inv: "gridInv ws k uiMult2 gl0 g"
    and fit: "getSize_Grid_Blocks_Linear ws \<le> length gl0"
    and rv: "rendezvous backend (getSize_Block_Kernels_Linear ws)"
    and b: "b < getSize_Grid_Blocks_Linear ws" and i: "i < getSize_Block_Kernels_Linear ws"
    and mv: "mayMove (units (blocks g ! b)) (getSize_Block_Kernels_Linear ws) i"
    and eff: "effect k uiMult2 (getSize_Block_Kernels_Linear ws) b i (units (blocks g ! b) ! i)
                (shared (blocks g ! b)) (global g) = (u', sh', gl')"
  shows "stepUnit backend k ws uiMult2 g (b, i) =
           Inr \<lparr>global = gl',
                blocks = (blocks g)[b := \<lparr>shared = sh', units = (units (blocks g ! b))[i := u']\<rparr>]\<rparr>"
proof -
  note wf = gridInv_D(3) [OF inv b]
  from b fit gridInv_D(2) [OF inv] have bg: "b < length (global g)" by simp
  from stepBlock_rendezvous [OF wf i bg rv] mv eff
  have "stepBlock backend k ws uiMult2 (blocks g ! b) (global g) i =
          Inr (\<lparr>shared = sh', units = (units (blocks g ! b))[i := u']\<rparr>, gl')" by simp
  with b gridInv_D(1) [OF inv] show ?thesis by (simp add: stepUnit_def)
qed

lemma effect_rank_less:
  assumes "effect k uiMult2 N b i u sh gl = (u', sh', gl')" "pc u \<noteq> L_Done"
  shows "labelRank (pc u) < labelRank (pc u')" "labelRank (pc u') \<le> 10"
  using effect_pc [OF assms(1)] assms(2) by (cases "pc u"; simp)+

lemma labelRank_le: "labelRank l \<le> 10"
  by (cases l) simp_all

lemma labelRank_Done: "labelRank l = 10 \<longleftrightarrow> l = L_Done"
  by (cases l) simp_all

lemma remaining_step:
  assumes b: "b < length (blocks g)" and i: "i < length (units (blocks g ! b))"
    and lt: "labelRank (pc (units (blocks g ! b) ! i)) < labelRank (pc u')"
  shows "remaining \<lparr>global = gl',
            blocks = (blocks g)[b := \<lparr>shared = sh', units = (units (blocks g ! b))[i := u']\<rparr>]\<rparr>
         < remaining g"
proof -
  let ?f = "\<lambda>u. 10 - labelRank (pc u)"
  let ?us = "units (blocks g ! b)"
  let ?h = "\<lambda>blk. \<Sum>u\<leftarrow>units blk. ?f u"
  have u: "?f u' < ?f (?us ! i)" using lt labelRank_le [of "pc u'"] by simp
  have "sum_list (map ?f (?us[i := u'])) = sum_list ((map ?f ?us)[i := ?f u'])"
    by (simp add: map_update)
  also have "\<dots> = sum_list (map ?f ?us) + ?f u' - ?f (?us ! i)"
    using i by (simp add: sum_list_update)
  also have "\<dots> < sum_list (map ?f ?us)"
  proof -
    have "map ?f ?us ! i \<le> sum_list (map ?f ?us)"
      using i by (intro elem_le_sum_list) simp
    then have "?f (?us ! i) \<le> sum_list (map ?f ?us)" using i by simp
    with u show ?thesis by simp
  qed
  finally have blk: "?h \<lparr>shared = sh', units = ?us[i := u']\<rparr> < ?h (blocks g ! b)" by simp
  have "sum_list (map ?h ((blocks g)[b := \<lparr>shared = sh', units = ?us[i := u']\<rparr>]))
          = sum_list ((map ?h (blocks g))[b := ?h \<lparr>shared = sh', units = ?us[i := u']\<rparr>])"
    by (simp add: map_update)
  also have "\<dots> = sum_list (map ?h (blocks g)) + ?h \<lparr>shared = sh', units = ?us[i := u']\<rparr>
                    - ?h (blocks g ! b)"
    using b by (simp add: sum_list_update)
  also have "\<dots> < sum_list (map ?h (blocks g))"
  proof -
    have "map ?h (blocks g) ! b \<le> sum_list (map ?h (blocks g))"
      using b by (intro elem_le_sum_list) simp
    then have "?h (blocks g ! b) \<le> sum_list (map ?h (blocks g))" using b by simp
    with blk show ?thesis by simp
  qed
  finally show ?thesis by (simp add: remaining_def)
qed

lemma exists_movable:
  assumes i: "i < N" and nd: "pc (us ! i) \<noteq> L_Done"
  shows "\<exists>j<N. pc (us ! j) \<noteq> L_Done \<and> mayMove us N j"
proof -
  from ex_has_least_nat [of "\<lambda>j. j < N" i "rankOf us"] i
  obtain j where j: "j < N" and least: "\<forall>y. y < N \<longrightarrow> rankOf us j \<le> rankOf us y" by blast
  from least i have "rankOf us j \<le> rankOf us i" by blast
  moreover have "rankOf us i < 10"
    using nd labelRank_le [of "pc (us ! i)"] labelRank_Done [of "pc (us ! i)"]
    by (simp add: rankOf_def)
  ultimately have "pc (us ! j) \<noteq> L_Done" by (auto simp: rankOf_def)
  moreover have "mayMove us N j" using least by (simp add: mayMove_def)
  ultimately show ?thesis using j by blast
qed

lemma not_allDone_D:
  assumes "\<not> allDone g"
  shows "\<exists>b<length (blocks g). \<exists>i<length (units (blocks g ! b)). pc (units (blocks g ! b) ! i) \<noteq> L_Done"
  using assms by (auto simp: allDone_def list_all_length)

lemma progress:
  assumes inv: "gridInv ws k uiMult2 gl0 g"
    and fit: "getSize_Grid_Blocks_Linear ws \<le> length gl0"
    and rv: "rendezvous backend (getSize_Block_Kernels_Linear ws)"
    and nd: "\<not> allDone g"
  shows "\<exists>bi g'. stepUnit backend k ws uiMult2 g bi = Inr g' \<and> gridInv ws k uiMult2 gl0 g'
           \<and> remaining g' < remaining g"
proof -
  let ?G = "getSize_Grid_Blocks_Linear ws" and ?N = "getSize_Block_Kernels_Linear ws"
  from not_allDone_D [OF nd] obtain b i0 where b: "b < length (blocks g)"
    and i0: "i0 < length (units (blocks g ! b))" "pc (units (blocks g ! b) ! i0) \<noteq> L_Done"
    by blast
  from b gridInv_D(1) [OF inv] have bG: "b < ?G" by simp
  from gridInv_D(3) [OF inv bG] have lu: "length (units (blocks g ! b)) = ?N"
    by (simp add: wfBlock_def)
  from exists_movable [of i0 ?N "units (blocks g ! b)"] i0 lu
  obtain i where i: "i < ?N" and nd: "pc (units (blocks g ! b) ! i) \<noteq> L_Done"
    and mv: "mayMove (units (blocks g ! b)) ?N i" by auto
  obtain u' sh' gl' where eff:
    "effect k uiMult2 ?N b i (units (blocks g ! b) ! i) (shared (blocks g ! b)) (global g)
       = (u', sh', gl')"
    by (cases "effect k uiMult2 ?N b i (units (blocks g ! b) ! i) (shared (blocks g ! b)) (global g)")
  let ?g' = "\<lparr>global = gl',
              blocks = (blocks g)[b := \<lparr>shared = sh', units = (units (blocks g ! b))[i := u']\<rparr>]\<rparr>"
  note step = stepUnit_effect [OF inv fit rv bG i mv eff]
  from gridInv_step [OF inv fit rv, of "(b, i)"] step have inv': "gridInv ws k uiMult2 gl0 ?g'"
    by simp
  from i lu have "i < length (units (blocks g ! b))" by simp
  from remaining_step [OF b this effect_rank_less(1) [OF eff nd]]
  have "remaining ?g' < remaining g" .
  with step inv' show ?thesis by blast
qed

lemma completion:
  assumes fit: "getSize_Grid_Blocks_Linear ws \<le> length gl0"
    and rv: "rendezvous backend (getSize_Block_Kernels_Linear ws)"
  shows "gridInv ws k uiMult2 gl0 g \<Longrightarrow>
     \<exists>sched g'. runSchedule backend k ws uiMult2 sched g = Inr g' \<and> gridInv ws k uiMult2 gl0 g'
        \<and> allDone g'"
proof (induction "remaining g" arbitrary: g rule: less_induct)
  case less
  show ?case
  proof (cases "allDone g")
    case True
    with less.prems have "runSchedule backend k ws uiMult2 [] g = Inr g \<and>
        gridInv ws k uiMult2 gl0 g \<and> allDone g" by simp
    then show ?thesis by blast
  next
    case False
    from progress [OF less.prems fit rv False] obtain bi g1 where
      s: "stepUnit backend k ws uiMult2 g bi = Inr g1" and i: "gridInv ws k uiMult2 gl0 g1"
      and r: "remaining g1 < remaining g" by blast
    from less.hyps [OF r i] obtain sched g' where
      "runSchedule backend k ws uiMult2 sched g1 = Inr g'" "gridInv ws k uiMult2 gl0 g'" "allDone g'"
      by blast
    with s have "runSchedule backend k ws uiMult2 (bi # sched) g = Inr g' \<and>
        gridInv ws k uiMult2 gl0 g' \<and> allDone g'" by simp
    then show ?thesis by blast
  qed
qed

lemma runSchedule_append:
  "runSchedule backend k ws uiMult2 (s1 @ s2) g =
     (case runSchedule backend k ws uiMult2 s1 g of
        Inl e \<Rightarrow> Inl e | Inr g' \<Rightarrow> runSchedule backend k ws uiMult2 s2 g')"
  by (induction s1 arbitrary: g) (auto split: sum.splits)

lemma mayMove_single: "mayMove us 1 0"
  by (simp add: mayMove_def)

lemma serial_unit_step:
  assumes inv: "gridInv ws k uiMult2 gl0 g"
    and fit: "getSize_Grid_Blocks_Linear ws \<le> length gl0"
    and N: "getSize_Block_Kernels_Linear ws = 1"
    and b: "b < getSize_Grid_Blocks_Linear ws"
  shows "\<exists>g'. stepUnit AccSerial k ws uiMult2 g (b, 0) = Inr g' \<and> gridInv ws k uiMult2 gl0 g'
           \<and> min 10 (Suc (rankOf (units (blocks g ! b)) 0)) \<le> rankOf (units (blocks g' ! b)) 0
           \<and> (\<forall>b'. b' \<noteq> b \<longrightarrow> blocks g' ! b' = blocks g ! b')"
proof -
  let ?us = "units (blocks g ! b)"
  have rv: "rendezvous AccSerial (getSize_Block_Kernels_Linear ws)"
    using N by (simp add: rendezvous_def)
  have i: "0 < getSize_Block_Kernels_Linear ws" using N by simp
  have mv: "mayMove ?us (getSize_Block_Kernels_Linear ws) 0"
    unfolding N by (rule mayMove_single)
  obtain u' sh' gl' where eff:
    "effect k uiMult2 (getSize_Block_Kernels_Linear ws) b 0 (?us ! 0) (shared (blocks g ! b))
       (global g) = (u', sh', gl')"
    by (cases "effect k uiMult2 (getSize_Block_Kernels_Linear ws) b 0 (?us ! 0)
                 (shared (blocks g ! b)) (global g)")
  let ?g' = "\<lparr>global = gl', blocks = (blocks g)[b := \<lparr>shared = sh', units = ?us[0 := u']\<rparr>]\<rparr>"
  note step = stepUnit_effect [OF inv fit rv b i mv eff]
  from gridInv_step [OF inv fit rv, of "(b, 0)"] step have inv': "gridInv ws k uiMult2 gl0 ?g'"
    by simp
  from gridInv_D(3) [OF inv b] N have lu: "length ?us = 1" by (simp add: wfBlock_def)
  from b gridInv_D(1) [OF inv] have bl: "b < length (blocks g)" by simp
  have r': "rankOf (units (blocks ?g' ! b)) 0 = labelRank (pc u')"
    using bl lu by (simp add: rankOf_update)
  have "min 10 (Suc (rankOf ?us 0)) \<le> labelRank (pc u')"
  proof (cases "pc (?us ! 0) = L_Done")
    case True
    with effect_pc [OF eff] show ?thesis by simp
  next
    case False
    from effect_rank_less(1) [OF eff False] show ?thesis by (simp add: rankOf_def)
  qed
  with r' have "min 10 (Suc (rankOf ?us 0)) \<le> rankOf (units (blocks ?g' ! b)) 0" by simp
  moreover have "\<forall>b'. b' \<noteq> b \<longrightarrow> blocks ?g' ! b' = blocks g ! b'" by simp
  ultimately show ?thesis using step inv' by blast
qed

lemma serial_unit_steps:
  assumes fit: "getSize_Grid_Blocks_Linear ws \<le> length gl0"
    and N: "getSize_Block_Kernels_Linear ws = 1"
    and b: "b < getSize_Grid_Blocks_Linear ws"
  shows "gridInv ws k uiMult2 gl0 g \<Longrightarrow>
     \<exists>g'. runSchedule AccSerial k ws uiMult2 (replicate n (b, 0)) g = Inr g'
        \<and> gridInv ws k uiMult2 gl0 g'
        \<and> min 10 (rankOf (units (blocks g ! b)) 0 + n) \<le> rankOf (units (blocks g' ! b)) 0
        \<and> (\<forall>b'. b' \<noteq> b \<longrightarrow> blocks g' ! b' = blocks g ! b')"
proof (induction n arbitrary: g)
  case 0
  then show ?case by simp
next
  case (Suc n)
  from serial_unit_step [OF Suc.prems fit N b] obtain g1 where
    s: "stepUnit AccSerial k ws uiMult2 g (b, 0) = Inr g1" and i: "gridInv ws k uiMult2 gl0 g1"
    and r: "min 10 (Suc (rankOf (units (blocks g ! b)) 0)) \<le> rankOf (units (blocks g1 ! b)) 0"
    and o: "\<forall>b'. b' \<noteq> b \<longrightarrow> blocks g1 ! b' = blocks g ! b'" by blast
  from Suc.IH [OF i] obtain g' where
    s': "runSchedule AccSerial k ws uiMult2 (replicate n (b, 0)) g1 = Inr g'"
    and i': "gridInv ws k uiMult2 gl0 g'"
    and r': "min 10 (rankOf (units (blocks g1 ! b)) 0 + n) \<le> rankOf (units (blocks g' ! b)) 0"
    and o': "\<forall>b'. b' \<noteq> b \<longrightarrow> blocks g' ! b' = blocks g1 ! b'" by blast
  from s s' have "runSchedule AccSerial k ws uiMult2 (replicate (Suc n) (b, 0)) g = Inr g'"
    by simp
  moreover from r r' have
    "min 10 (rankOf (units (blocks g ! b)) 0 + Suc n) \<le> rankOf (units (blocks g' ! b)) 0"
    by simp
  moreover from o o' have "\<forall>b'. b' \<noteq> b \<longrightarrow> blocks g' ! b' = blocks g ! b'" by simp
  ultimately show ?case using i' by blast
qed

lemma rankOf_le: "rankOf us i \<le> 10"
  by (simp add: rankOf_def labelRank_le)

lemma serial_blocks:
  assumes fit: "getSize_Grid_Blocks_Linear ws \<le> length gl0"
    and N: "getSize_Block_Kernels_Linear ws = 1"
    and inv: "gridInv ws k uiMult2 gl0 g"
  shows "n \<le> getSize_Grid_Blocks_Linear ws \<Longrightarrow>
     \<exists>g'. runSchedule AccSerial k ws uiMult2
             (concat (map (\<lambda>b. replicate 10 (b, 0)) [0..<n])) g = Inr g'
        \<and> gridInv ws k uiMult2 gl0 g'
        \<and> (\<forall>b<n. rankOf (units (blocks g' ! b)) 0 = 10)"
proof (induction n)
  case 0
  with inv show ?case by simp
next
  case (Suc n)
  then have n: "n < getSize_Grid_Blocks_Linear ws" by simp
  from Suc obtain g1 where
    s1: "runSchedule AccSerial k ws uiMult2 (concat (map (\<lambda>b. replicate 10 (b, 0)) [0..<n])) g
           = Inr g1"
    and i1: "gridInv ws k uiMult2 gl0 g1"
    and d1: "\<forall>b<n. rankOf (units (blocks g1 ! b)) 0 = 10" by auto
  from serial_unit_steps [OF fit N n i1, of 10] obtain g' where
    s2: "runSchedule AccSerial k ws uiMult2 (replicate 10 (n, 0)) g1 = Inr g'"
    and i2: "gridInv ws k uiMult2 gl0 g'"
    and r2: "min 10 (rankOf (units (blocks g1 ! n)) 0 + 10) \<le> rankOf (units (blocks g' ! n)) 0"
    and o2: "\<forall>b'. b' \<noteq> n \<longrightarrow> blocks g' ! b' = blocks g1 ! b'" by blast
  from r2 rankOf_le [of "units (blocks g' ! n)" 0] have rn: "rankOf (units (blocks g' ! n)) 0 = 10"
    by simp
  have "rankOf (units (blocks g' ! b)) 0 = 10" if "b < Suc n" for b
  proof (cases "b = n")
    case True
    with rn show ?thesis by simp
  next
    case False
    with that d1 o2 show ?thesis by simp
  qed
  moreover have "runSchedule AccSerial k ws uiMult2
      (concat (map (\<lambda>b. replicate 10 (b, 0)) [0..<Suc n])) g = Inr g'"
    using s1 s2 by (simp add: runSchedule_append)
  ultimately show ?case using i2 by blast
qed

lemma serialSchedule_single:
  "getSize_Block_Kernels_Linear ws = 1 \<Longrightarrow>
     serialSchedule ws = concat (map (\<lambda>b. replicate 10 (b, 0)) [0..<getSize_Grid_Blocks_Linear ws])"
  by (simp add: serialSchedule_def)

lemma serial_completes:
  assumes fit: "getSize_Grid_Blocks_Linear ws \<le> length gl0"
    and N: "getSize_Block_Kernels_Linear ws \<le> 1"
    and inv: "gridInv ws k uiMult2 gl0 g"
  shows "\<exists>g'. runSchedule AccSerial k ws uiMult2 (serialSchedule ws) g = Inr g'
           \<and> gridInv ws k uiMult2 gl0 g' \<and> allDone g'"
proof (cases "getSize_Block_Kernels_Linear ws = 1")
  case True
  from serial_blocks [OF fit True inv order_refl] obtain g' where
    s: "runSchedule AccSerial k ws uiMult2 (serialSchedule ws) g = Inr g'"
    and i: "gridInv ws k uiMult2 gl0 g'"
    and d: "\<forall>b<getSize_Grid_Blocks_Linear ws. rankOf (units (blocks g' ! b)) 0 = 10"
    unfolding serialSchedule_single [OF True] by blast
  have "allDone g'"
    unfolding allDone_def list_all_length
  proof (intro allI impI)
    fix b i assume b: "b < length (blocks g')" and "i < length (units (blocks g' ! b))"
    with gridInv_D(1,3) [OF i] True have bG: "b < getSize_Grid_Blocks_Linear ws" and "i = 0"
      by (simp_all add: wfBlock_def)
    with d show "pc (units (blocks g' ! b) ! i) = L_Done"
      by (simp add: rankOf_def labelRank_Done)
  qed
  with s i show ?thesis by blast
next
  case False
  with N have N0: "getSize_Block_Kernels_Linear ws = 0" by simp
  then have "concat (map (\<lambda>b. concat (map (\<lambda>i. replicate 10 (b, i)) [0..<getSize_Block_Kernels_Linear ws]))
                 [0..<getSize_Grid_Blocks_Linear ws]) = []"
    by simp
  then have e: "serialSchedule ws = []" by (simp only: serialSchedule_def)
  have "allDone g"
    unfolding allDone_def list_all_length
  proof (intro allI impI)
    fix b i assume b: "b < length (blocks g)" and "i < length (units (blocks g ! b))"
    with gridInv_D(1,3) [OF inv] N0 show "pc (units (blocks g ! b) ! i) = L_Done"
      by (simp add: wfBlock_def)
  qed
  with inv e show ?thesis by simp
qed

lemma execute_serial_returns:
  assumes N: "getSize_Block_Kernels_Linear ws \<le> 1"
    and G: "getSize_Grid_Blocks_Linear ws \<le> 2 ^ 32"
    and fit: "getSize_Grid_Blocks_Linear ws \<le> length gl"
  shows "execute AccSerial k ws gl uiMult2 uninit sched = Some (Inr (expectedGlobal ws k uiMult2 gl))"
proof -
  let ?N = "getSize_Block_Kernels_Linear ws"
  from N have N32: "?N < 2 ^ 32" by simp
  have "prodVec (blockKernels ws) * sizeofUint32 < 2 ^ 64"
    using N by (simp add: getSize_Block_Kernels_Linear_def sizeofUint32_def)
  note ex = execute_cells [OF this, of AccSerial k gl uiMult2 uninit sched]
  from serial_completes [OF fit N gridInv_init [OF N32 G], where uninit1 = uninit and k = k
      and ?uiMult2.0 = uiMult2]
  obtain g where r: "runSchedule AccSerial k ws uiMult2 (serialSchedule ws) (initGrid ws ?N uninit gl) = Inr g"
    and inv: "gridInv ws k uiMult2 gl g" and fin: "allDone g"
    by blast
  from gridInv_final [OF inv fin] r fin ex show ?thesis
    by (simp add: getSize_Block_Kernels_Linear_def)
qed

lemma execute_can_return:
  assumes N: "getSize_Block_Kernels_Linear ws < 2 ^ 32"
    and G: "getSize_Grid_Blocks_Linear ws \<le> 2 ^ 32"
    and fit: "getSize_Grid_Blocks_Linear ws \<le> length gl"
    and rv: "rendezvous backend (getSize_Block_Kernels_Linear ws)"
  shows "\<exists>more. execute backend k ws gl uiMult2 uninit (sched @ more)
           = Some (Inr (expectedGlobal ws k uiMult2 gl))"
proof (cases "backend = AccSerial")
  case True
  with rv have "getSize_Block_Kernels_Linear ws \<le> 1" by (simp add: rendezvous_def)
  from execute_serial_returns [OF this G fit] True show ?thesis by blast
next
  case False
  let ?N = "getSize_Block_Kernels_Linear ws"
  have "prodVec (blockKernels ws) * sizeofUint32 < 2 ^ 64"
    using N by (simp add: getSize_Block_Kernels_Linear_def sizeofUint32_def)
  note ex = execute_cells [OF this, of backend k gl uiMult2 uninit]
  from runSchedule_inv [OF fit rv gridInv_init [OF N G], where sched = sched and uninit1 = uninit
      and k = k and ?uiMult2.0 = uiMult2]
  obtain g1 where r1: "runSchedule backend k ws uiMult2 sched (initGrid ws ?N uninit gl) = Inr g1"
    and inv1: "gridInv ws k uiMult2 gl g1"
    by blast
  from completion [OF fit rv inv1] obtain more g where
    r2: "runSchedule backend k ws uiMult2 more g1 = Inr g" and inv: "gridInv ws k uiMult2 gl g"
    and fin: "allDone g" by blast
  from r1 r2 have "runSchedule backend k ws uiMult2 (sched @ more) (initGrid ws ?N uninit gl) = Inr g"
    by (simp add: runSchedule_append)
  with gridInv_final [OF inv fin] fin ex [of "sched @ more"] False
  have "execute backend k ws gl uiMult2 uninit (sched @ more) = Some (Inr (expectedGlobal ws k uiMult2 gl))"
    by (simp add: getSize_Block_Kernels_Linear_def)
  then show ?thesis by blast
qed

lemma ucast_of_nat_down: "(ucast (of_nat n :: size_t) :: u32) = of_nat n"
proof -
  have "take_bit 32 (take_bit 64 n) = take_bit 32 n" by simp
  then show ?thesis
    by (simp add: unsigned_of_nat word_of_nat_eq_iff)
qed

lemma expectedGlobal_zeros:
  "expectedGlobal ws k uiMult2 (replicate (getSize_Grid_Blocks_Linear ws) 0) =
     replicate (getSize_Grid_Blocks_Linear ws)
       (outValue k uiMult2 (getSize_Block_Kernels_Linear ws))"
proof (cases "0 < getSize_Block_Kernels_Linear ws")
  case True
  then show ?thesis
    by (intro nth_equalityI) (simp_all add: expectedGlobal_def)
next
  case False
  then show ?thesis
    by (intro nth_equalityI) (simp_all add: expectedGlobal_def outValue_def)
qed

lemma fold_checkStep_ok:
  "\<forall>i\<in>set is. v ! i = c \<Longrightarrow> fold (checkStep c v) is st = st"
  by (induction "is" arbitrary: st) (simp_all add: checkStep_def)

lemma profile_unfold:
  assumes G: "getSize_Grid_Blocks_Linear ws * 4 < 2 ^ 64"
  shows "profileAcceleratedExampleKernel acc W env ws uiMult2 =
    (if availBytes env < getSize_Grid_Blocks_Linear ws * 4 then Some (Inl OutOfMemory)
     else (case execute acc \<lparr>TuiNumUselessWork = W, m_uiMult = 42\<rparr> ws
                  (replicate (getSize_Grid_Blocks_Linear ws) 0) uiMult2 (freshShared env)
                  (schedule env) of
             None \<Rightarrow> None
           | Some (Inl e) \<Rightarrow> Some (Inl e)
           | Some (Inr written) \<Rightarrow>
               Some (Inr \<lparr>vuiBlockRetVals = written,
                  bResultCorrect = fst (fold (checkStep
                     (outValue \<lparr>TuiNumUselessWork = W, m_uiMult = 42\<rparr> uiMult2
                        (getSize_Block_Kernels_Linear ws)) written)
                     [0..<getSize_Grid_Blocks_Linear ws] (True, [])),
                  mismatches = snd (fold (checkStep
                     (outValue \<lparr>TuiNumUselessWork = W, m_uiMult = 42\<rparr> uiMult2
                        (getSize_Block_Kernels_Linear ws)) written)
                     [0..<getSize_Grid_Blocks_Linear ws] (True, []))\<rparr>)))"
proof -
  let ?G = "getSize_Grid_Blocks_Linear ws" and ?N = "getSize_Block_Kernels_Linear ws"
  have uG: "unat (of_nat ?G :: size_t) = ?G" using G by (simp add: unat_of_nat)
  have "unat (of_nat (?G * 4) :: size_t) = ?G * 4"
    using G by (simp add: unat_of_nat del: of_nat_mult)
  then have uB: "unat ((of_nat ?G :: size_t) * 4) = ?G * 4" by simp
  have c: "(ucast ((of_nat ?N :: size_t) * of_nat ?N) :: u32) = of_nat ?N * of_nat ?N"
    using ucast_of_nat_down [of "?N * ?N"] by simp
  show ?thesis
    by (simp add: profileAcceleratedExampleKernel_def Let_def sizeofUint32_def uG uB c
          memAlloc_def memCopy_def outValue_def
          split: option.splits sum.splits)
qed

lemma profile_of_written:
  assumes "written = replicate G c"
  shows "\<lparr>vuiBlockRetVals = written,
          bResultCorrect = fst (fold (checkStep c written) [0..<G] (True, [])),
          mismatches = snd (fold (checkStep c written) [0..<G] (True, []))\<rparr>
         = \<lparr>vuiBlockRetVals = replicate G c, bResultCorrect = True, mismatches = []\<rparr>"
proof -
  have "fold (checkStep c written) [0..<G] (True, []) = (True, [])"
    using assms by (intro fold_checkStep_ok) simp
  with assms show ?thesis by simp
qed

lemma profile_result:
  assumes N: "getSize_Block_Kernels_Linear ws < 2 ^ 32"
    and G: "getSize_Grid_Blocks_Linear ws \<le> 2 ^ 32"
    and rv: "rendezvous acc (getSize_Block_Kernels_Linear ws)"
  shows "profileAcceleratedExampleKernel acc W env ws uiMult2 =
    (if availBytes env < getSize_Grid_Blocks_Linear ws * 4 then Some (Inl OutOfMemory)
     else if execute acc \<lparr>TuiNumUselessWork = W, m_uiMult = 42\<rparr> ws
                  (replicate (getSize_Grid_Blocks_Linear ws) 0) uiMult2 (freshShared env)
                  (schedule env) = None then None
     else Some (Inr (correctResult ws uiMult2)))"
proof -
  let ?G = "getSize_Grid_Blocks_Linear ws" and ?N = "getSize_Block_Kernels_Linear ws"
  let ?k = "\<lparr>TuiNumUselessWork = W, m_uiMult = 42\<rparr>"
  from G have G4: "?G * 4 < 2 ^ 64" by simp
  have fit: "?G \<le> length (replicate ?G (0 :: u32))" by simp
  note ex = execute_rendezvous [OF N G fit rv, of ?k uiMult2 "freshShared env" "schedule env"]
  have val: "outValue ?k uiMult2 ?N = of_nat ?N * of_nat ?N * 42 * uiMult2"
    by (simp add: outValue_def)
  show ?thesis
  proof (cases "execute acc ?k ws (replicate ?G 0) uiMult2 (freshShared env) (schedule env) = None")
    case True
    then show ?thesis by (simp add: profile_unfold [OF G4])
  next
    case False
    with ex have e: "execute acc ?k ws (replicate ?G 0) uiMult2 (freshShared env) (schedule env)
        = Some (Inr (replicate ?G (outValue ?k uiMult2 ?N)))"
      by (simp add: expectedGlobal_zeros)
    show ?thesis
      unfolding profile_unfold [OF G4] e
      using profile_of_written [OF refl, of ?G "outValue ?k uiMult2 ?N"]
      by (simp add: correctResult_def val)
  qed
qed

section \<open>The host-side check\<close>

lemma main_grid_size: "getSize_Grid_Blocks_Linear (mainWorkSize cfg) = 512"
  by (simp add: getSize_Grid_Blocks_Linear_def mainWorkSize_def v3uiSizeGridBlocks_def prodVec_def)

lemma main_block_size:
  "getSize_Block_Kernels_Linear (mainWorkSize cfg) =
     (if serialEnabled cfg then 1 else if openMpEnabled cfg then 32
      else if cudaEnabled cfg \<or> threadsEnabled cfg \<or> fibersEnabled cfg then 512 else 1)"
  by (simp add: getSize_Block_Kernels_Linear_def mainWorkSize_def v3uiSizeBlockKernels_def
        prodVec_def)

lemma main_block_size_bound: "getSize_Block_Kernels_Linear (mainWorkSize cfg) < 2 ^ 32"
  by (simp add: main_block_size)

lemma main_rendezvous:
  assumes "acc \<in> set (enabledBackends cfg)"
  shows "rendezvous acc (getSize_Block_Kernels_Linear (mainWorkSize cfg))"
proof (cases "acc = AccSerial")
  case False
  then show ?thesis by (simp add: rendezvous_def)
next
  case True
  with assms have "serialEnabled cfg"
    by (auto simp: enabledBackends_def split: if_splits)
  then show ?thesis by (simp add: rendezvous_def main_block_size)
qed

text \<open>
  C1: for every work size whose block and grid sizes fit the kernel's 32-bit indices, on
  every backend whose barrier holds the units of a block back until all have arrived
  (every backend but the sequential one, and the sequential one for blocks of one unit),
  whatever the value of \<^verbatim>\<open>TuiNumUselessWork\<close>, the multiplier \<^verbatim>\<open>uiMult2\<close>, the content
  of fresh memory and the order in which the backend advances the units: when
  \<^verbatim>\<open>profileAcceleratedExampleKernel\<close> returns, the vector copied back has, for each
  block of the grid, the value \<open>uiNumKernelsInBlock * uiNumKernelsInBlock * 42 * uiMult2\<close>
  (modulo \<open>2 ^ 32\<close>), and the check of lines 200 to 210 finds no mismatch; the vector
  copied back is what \<open>execute\<close> left in the accelerator's buffer. The call fails only
  when the accelerator has not the bytes for the buffer, and with the bytes available
  every order of advancing the units can be continued to one under which the call returns
  that result. Every accelerator that a build of \<^verbatim>\<open>main\<close> enables is run under these
  conditions, on a grid of 512 blocks.
\<close>

theorem profile_check_succeeds:
  assumes N: "getSize_Block_Kernels_Linear ws < 2 ^ 32"
    and G: "getSize_Grid_Blocks_Linear ws \<le> 2 ^ 32"
    and rv: "rendezvous acc (getSize_Block_Kernels_Linear ws)"
  shows "(\<forall>r. profileAcceleratedExampleKernel acc W env ws uiMult2 = Some (Inr r) \<longrightarrow>
            length (vuiBlockRetVals r) = getSize_Grid_Blocks_Linear ws
            \<and> (\<forall>b<getSize_Grid_Blocks_Linear ws. vuiBlockRetVals r ! b =
                  of_nat (getSize_Block_Kernels_Linear ws)
                    * of_nat (getSize_Block_Kernels_Linear ws) * 42 * uiMult2)
            \<and> bResultCorrect r \<and> mismatches r = []
            \<and> execute acc \<lparr>TuiNumUselessWork = W, m_uiMult = 42\<rparr> ws
                 (replicate (getSize_Grid_Blocks_Linear ws) 0) uiMult2 (freshShared env)
                 (schedule env) = Some (Inr (vuiBlockRetVals r)))
       \<and> (\<forall>e. profileAcceleratedExampleKernel acc W env ws uiMult2 = Some (Inl e) \<longrightarrow>
            e = OutOfMemory \<and> availBytes env < getSize_Grid_Blocks_Linear ws * 4)
       \<and> (getSize_Grid_Blocks_Linear ws * 4 \<le> availBytes env \<longrightarrow>
            (\<exists>more. profileAcceleratedExampleKernel acc W (env\<lparr>schedule := schedule env @ more\<rparr>)
                      ws uiMult2
                    = Some (Inr (correctResult ws uiMult2))))
       \<and> (\<forall>cfg a. a \<in> set (enabledBackends cfg) \<longrightarrow>
            getSize_Block_Kernels_Linear (mainWorkSize cfg) < 2 ^ 32
            \<and> getSize_Grid_Blocks_Linear (mainWorkSize cfg) = 512
            \<and> rendezvous a (getSize_Block_Kernels_Linear (mainWorkSize cfg)))"
proof (intro conjI allI impI)
  let ?k = "\<lparr>TuiNumUselessWork = W, m_uiMult = 42\<rparr>"
  let ?G = "getSize_Grid_Blocks_Linear ws" and ?N = "getSize_Block_Kernels_Linear ws"
  note pr = profile_result [OF N G rv]
  have fit: "?G \<le> length (replicate ?G (0 :: u32))" by simp
  {
    fix r assume a: "profileAcceleratedExampleKernel acc W env ws uiMult2 = Some (Inr r)"
    with pr [of W env uiMult2] have r: "r = correctResult ws uiMult2"
      and ne: "execute acc ?k ws (replicate ?G 0) uiMult2 (freshShared env) (schedule env) \<noteq> None"
      by (simp_all split: if_splits)
    show "length (vuiBlockRetVals r) = ?G" unfolding r by (simp add: correctResult_def)
    show "bResultCorrect r" unfolding r by (simp add: correctResult_def)
    show "mismatches r = []" unfolding r by (simp add: correctResult_def)
    from execute_rendezvous [OF N G fit rv, of ?k uiMult2 "freshShared env" "schedule env"] ne
    have "execute acc ?k ws (replicate ?G 0) uiMult2 (freshShared env) (schedule env)
            = Some (Inr (expectedGlobal ws ?k uiMult2 (replicate ?G 0)))"
      by simp
    then show "execute acc ?k ws (replicate ?G 0) uiMult2 (freshShared env) (schedule env)
            = Some (Inr (vuiBlockRetVals r))"
      unfolding r by (simp add: expectedGlobal_zeros correctResult_def outValue_def)
    fix b :: nat assume "b < ?G"
    then show "vuiBlockRetVals r ! b = of_nat ?N * of_nat ?N * 42 * uiMult2"
      unfolding r by (simp add: correctResult_def)
  }
  {
    fix e assume "profileAcceleratedExampleKernel acc W env ws uiMult2 = Some (Inl e)"
    with pr [of W env uiMult2] have "e = OutOfMemory \<and> availBytes env < ?G * 4"
      by (simp split: if_splits)
    then show "e = OutOfMemory" and "availBytes env < ?G * 4" by simp_all
  }
  {
    assume mem: "?G * 4 \<le> availBytes env"
    from execute_can_return [OF N G fit rv, of ?k uiMult2 "freshShared env" "schedule env"]
    obtain more where "execute acc ?k ws (replicate ?G 0) uiMult2
        (freshShared env) (schedule env @ more)
        = Some (Inr (expectedGlobal ws ?k uiMult2 (replicate ?G 0)))"
      by blast
    with mem pr [of W "env\<lparr>schedule := schedule env @ more\<rparr>" uiMult2]
    have "profileAcceleratedExampleKernel acc W (env\<lparr>schedule := schedule env @ more\<rparr>) ws uiMult2
            = Some (Inr (correctResult ws uiMult2))"
      by simp
    then show "\<exists>more. profileAcceleratedExampleKernel acc W (env\<lparr>schedule := schedule env @ more\<rparr>)
        ws uiMult2 = Some (Inr (correctResult ws uiMult2))"
      by blast
  }
  fix cfg a assume en: "a \<in> set (enabledBackends cfg)"
  show "getSize_Block_Kernels_Linear (mainWorkSize cfg) < 2 ^ 32"
    by (rule main_block_size_bound)
  show "getSize_Grid_Blocks_Linear (mainWorkSize cfg) = 512" by (rule main_grid_size)
  show "rendezvous a (getSize_Block_Kernels_Linear (mainWorkSize cfg))"
    using en by (rule main_rendezvous)
qed

theorem profile_check_succeeds_witness:
  "getSize_Block_Kernels_Linear
     \<lparr>gridBlocks = \<lparr>vx = 2, vy = 1, vz = 1\<rparr>, blockKernels = \<lparr>vx = 2, vy = 2, vz = 1\<rparr>\<rparr> = 4
   \<and> rendezvous AccThreads 4
   \<and> profileAcceleratedExampleKernel AccThreads 100
        \<lparr>availBytes = 8, freshGlobal = (\<lambda>_. 7), freshShared = (\<lambda>_ _. 7),
         schedule = concat (replicate 12
           [(0, 0), (1, 3), (0, 1), (1, 2), (0, 2), (1, 1), (0, 3), (1, 0)])\<rparr>
        \<lparr>gridBlocks = \<lparr>vx = 2, vy = 1, vz = 1\<rparr>, blockKernels = \<lparr>vx = 2, vy = 2, vz = 1\<rparr>\<rparr> 5
      = Some (Inr \<lparr>vuiBlockRetVals = [3360, 3360], bResultCorrect = True, mismatches = []\<rparr>)
   \<and> profileAcceleratedExampleKernel AccThreads 100
        \<lparr>availBytes = 7, freshGlobal = (\<lambda>_. 7), freshShared = (\<lambda>_ _. 7),
         schedule = concat (replicate 12
           [(0, 0), (1, 3), (0, 1), (1, 2), (0, 2), (1, 1), (0, 3), (1, 0)])\<rparr>
        \<lparr>gridBlocks = \<lparr>vx = 2, vy = 1, vz = 1\<rparr>, blockKernels = \<lparr>vx = 2, vy = 2, vz = 1\<rparr>\<rparr> 5
      = Some (Inl OutOfMemory)"
proof -
  let ?ws = "\<lparr>gridBlocks = \<lparr>vx = 2, vy = 1, vz = 1\<rparr>, blockKernels = \<lparr>vx = 2, vy = 2, vz = 1\<rparr>\<rparr>"
  let ?s = "concat (replicate 12
           [(0, 0), (1, 3), (0, 1), (1, 2), (0, 2), (1, 1), (0, 3), (1, 0)]) :: (nat \<times> nat) list"
  let ?env = "\<lparr>availBytes = 8, freshGlobal = (\<lambda>_. 7 :: u32), freshShared = (\<lambda>_ _. 7 :: u32),
                schedule = ?s\<rparr>"
  let ?env' = "\<lparr>availBytes = 7, freshGlobal = (\<lambda>_. 7 :: u32), freshShared = (\<lambda>_ _. 7 :: u32),
                schedule = ?s\<rparr>"
  have n: "getSize_Block_Kernels_Linear ?ws = 4" "getSize_Grid_Blocks_Linear ?ws = 2"
    by (simp_all add: getSize_Block_Kernels_Linear_def getSize_Grid_Blocks_Linear_def prodVec_def)
  have rv4: "rendezvous AccThreads 4" by (simp add: rendezvous_def)
  have N: "getSize_Block_Kernels_Linear ?ws < 2 ^ 32" and G: "getSize_Grid_Blocks_Linear ?ws \<le> 2 ^ 32"
    and rv: "rendezvous AccThreads (getSize_Block_Kernels_Linear ?ws)"
    unfolding n by (simp_all add: rendezvous_def)
  have "(case profileAcceleratedExampleKernel AccThreads 100 ?env ?ws 5 of
           Some (Inr r) \<Rightarrow> True | _ \<Rightarrow> False)"
    by code_simp
  then obtain r where p: "profileAcceleratedExampleKernel AccThreads 100 ?env ?ws 5 = Some (Inr r)"
    by (auto split: option.splits sum.splits)
  note t = profile_check_succeeds [OF N G rv, of 100 ?env 5]
  from t have "\<forall>r. profileAcceleratedExampleKernel AccThreads 100 ?env ?ws 5 = Some (Inr r) \<longrightarrow>
            length (vuiBlockRetVals r) = getSize_Grid_Blocks_Linear ?ws
            \<and> (\<forall>b<getSize_Grid_Blocks_Linear ?ws. vuiBlockRetVals r ! b =
                  of_nat (getSize_Block_Kernels_Linear ?ws)
                    * of_nat (getSize_Block_Kernels_Linear ?ws) * 42 * 5)
            \<and> bResultCorrect r \<and> mismatches r = []
            \<and> execute AccThreads \<lparr>TuiNumUselessWork = 100, m_uiMult = 42\<rparr> ?ws
                 (replicate (getSize_Grid_Blocks_Linear ?ws) 0) 5 (freshShared ?env)
                 (schedule ?env) = Some (Inr (vuiBlockRetVals r))"
    by (rule conjunct1)
  from this [THEN spec [where x = r], THEN mp, OF p]
  have len: "length (vuiBlockRetVals r) = getSize_Grid_Blocks_Linear ?ws"
    and val: "\<forall>b<getSize_Grid_Blocks_Linear ?ws. vuiBlockRetVals r ! b =
                  of_nat (getSize_Block_Kernels_Linear ?ws)
                    * of_nat (getSize_Block_Kernels_Linear ?ws) * 42 * 5"
    and ok: "bResultCorrect r" and mm: "mismatches r = []"
    by blast+
  from len have l2: "length (vuiBlockRetVals r) = 2" unfolding n .
  from val have "vuiBlockRetVals r ! 0 = 3360" "vuiBlockRetVals r ! 1 = 3360"
    unfolding n by simp_all
  with l2 have "vuiBlockRetVals r = [3360, 3360]"
    by (intro nth_equalityI) (auto simp: less_Suc_eq numeral_2_eq_2)
  with ok mm have "r = \<lparr>vuiBlockRetVals = [3360, 3360], bResultCorrect = True, mismatches = []\<rparr>"
    by (cases r) simp
  with p have first: "profileAcceleratedExampleKernel AccThreads 100 ?env ?ws 5
      = Some (Inr \<lparr>vuiBlockRetVals = [3360, 3360], bResultCorrect = True, mismatches = []\<rparr>)"
    by simp
  have second: "profileAcceleratedExampleKernel AccThreads 100 ?env' ?ws 5 = Some (Inl OutOfMemory)"
    by code_simp
  from n(1) rv4 first second show ?thesis by (intro conjI)
qed

section \<open>What every step preserves, on every backend\<close>

lemma kernelStep_unit:
  assumes "kernelStep k ws uiMult2 u sh gl = Inr (u', sh', gl')"
  shows "idxCtx u' = idxCtx u" and "writerOk ws u \<Longrightarrow> writerOk ws u'"
  using assms
  by (cases "pc u";
      auto simp: kernelStep_def Let_def writerOk_def atomicOp_Add_def split: if_splits)+

lemma kernelStep_global:
  assumes "kernelStep k ws uiMult2 u sh gl = Inr (u', sh', gl')"
  shows "gl' = gl \<or>
    (pc u = L_Write \<and>
     gl' = gl[unat (of_nat (getIdx_Grid_Blocks_Linear ws (idxCtx u)) :: u32)
               := reg u * m_uiMult k * uiMult2])"
  using assms
  by (cases "pc u")
     (auto simp: kernelStep_def Let_def atomicOp_Add_def split: if_splits)

lemma stepBlock_Inr:
  assumes "stepBlock backend k ws uiMult2 blk gl i = Inr (blk', gl')"
  shows "(blk' = blk \<and> gl' = gl) \<or>
    (i < length (units blk) \<and>
     (\<exists>u' sh'. kernelStep k ws uiMult2 (units blk ! i) (shared blk) gl = Inr (u', sh', gl')
        \<and> blk' = \<lparr>shared = sh', units = (units blk)[i := u']\<rparr>))"
  using assms
  by (auto simp: stepBlock_def Let_def split: if_splits sum.splits)

lemma stepUnit_Inr:
  assumes "stepUnit backend k ws uiMult2 g (b, i) = Inr g'"
  shows "g' = g \<or>
    (b < length (blocks g) \<and> i < length (units (blocks g ! b)) \<and>
     (\<exists>u' sh' gl'. kernelStep k ws uiMult2 (units (blocks g ! b) ! i) (shared (blocks g ! b))
                      (global g) = Inr (u', sh', gl')
        \<and> g' = \<lparr>global = gl',
                 blocks = (blocks g)[b := \<lparr>shared = sh',
                                           units = (units (blocks g ! b))[i := u']\<rparr>]\<rparr>))"
proof (cases "b < length (blocks g)")
  case False
  with assms show ?thesis by (simp add: stepUnit_def)
next
  case True
  with assms obtain blk' gl' where
    sb: "stepBlock backend k ws uiMult2 (blocks g ! b) (global g) i = Inr (blk', gl')"
    and g': "g' = \<lparr>global = gl', blocks = (blocks g)[b := blk']\<rparr>"
    by (auto simp: stepUnit_def split: sum.splits)
  from stepBlock_Inr [OF sb] show ?thesis
  proof
    assume "blk' = blocks g ! b \<and> gl' = global g"
    with g' have "g' = g" by simp
    then show ?thesis by simp
  next
    assume "i < length (units (blocks g ! b)) \<and>
     (\<exists>u' sh'. kernelStep k ws uiMult2 (units (blocks g ! b) ! i) (shared (blocks g ! b)) (global g)
          = Inr (u', sh', gl')
        \<and> blk' = \<lparr>shared = sh', units = (units (blocks g ! b))[i := u']\<rparr>)"
    with True g' show ?thesis by blast
  qed
qed

lemma structInv_step:
  assumes inv: "structInv ws g" and step: "stepUnit backend k ws uiMult2 g bi = Inr g'"
  shows "structInv ws g'"
proof -
  obtain b i where bi: "bi = (b, i)" by (cases bi)
  from stepUnit_Inr [OF step [unfolded bi]] show ?thesis
  proof
    assume "g' = g"
    with inv show ?thesis by simp
  next
    assume "b < length (blocks g) \<and> i < length (units (blocks g ! b)) \<and>
     (\<exists>u' sh' gl'. kernelStep k ws uiMult2 (units (blocks g ! b) ! i) (shared (blocks g ! b))
                      (global g) = Inr (u', sh', gl')
        \<and> g' = \<lparr>global = gl',
                 blocks = (blocks g)[b := \<lparr>shared = sh',
                                           units = (units (blocks g ! b))[i := u']\<rparr>]\<rparr>)"
    then obtain u' sh' gl' where b: "b < length (blocks g)"
      and i: "i < length (units (blocks g ! b))"
      and ks: "kernelStep k ws uiMult2 (units (blocks g ! b) ! i) (shared (blocks g ! b))
                 (global g) = Inr (u', sh', gl')"
      and g': "g' = \<lparr>global = gl',
                 blocks = (blocks g)[b := \<lparr>shared = sh',
                                           units = (units (blocks g ! b))[i := u']\<rparr>]\<rparr>"
      by blast
    let ?us = "units (blocks g ! b)"
    note ctx = kernelStep_unit(1) [OF ks]
    have "map idxCtx (?us[i := u']) = map idxCtx ?us"
      using ctx i by (simp add: map_update list_update_same_conv)
    then have "contexts g' = (contexts g)[b := contexts g ! b]"
      using b by (simp add: g' contexts_def map_update)
    then have c: "contexts g' = contexts g" by simp
    have w: "writerOk ws (units (blocks g' ! x) ! y)"
      if x: "x < length (blocks g')" and y: "y < length (units (blocks g' ! x))" for x y
    proof (cases "x = b \<and> y = i")
      case True
      from inv b i have "writerOk ws (?us ! i)" by (simp add: structInv_def)
      from kernelStep_unit(2) [OF ks this] True b i show ?thesis by (simp add: g')
    next
      case False
      with x y b i have "units (blocks g' ! x) ! y = units (blocks g ! x) ! y"
        by (cases "x = b") (auto simp: g')
      moreover from x y b have "x < length (blocks g)" "y < length (units (blocks g ! x))"
        by (cases "x = b"; simp add: g')+
      ultimately show ?thesis using inv by (simp add: structInv_def)
    qed
    from c w inv show ?thesis by (simp add: structInv_def)
  qed
qed

lemma structInv_run:
  "structInv ws g \<Longrightarrow> runSchedule backend k ws uiMult2 sched g = Inr g' \<Longrightarrow> structInv ws g'"
proof (induction sched arbitrary: g)
  case Nil
  then show ?case by simp
next
  case (Cons bi sched)
  from Cons.prems(2) obtain g1 where s: "stepUnit backend k ws uiMult2 g bi = Inr g1"
    and r: "runSchedule backend k ws uiMult2 sched g1 = Inr g'"
    by (auto split: sum.splits)
  from Cons.IH [OF structInv_step [OF Cons.prems(1) s] r] show ?case .
qed

lemma structInv_init: "structInv ws (initGrid ws cells uninit gl)"
proof -
  have "contexts (initGrid ws cells uninit gl) = allContexts ws"
    by (simp add: contexts_def allContexts_def initGrid_def initBlock_def initUnit_def comp_def)
  moreover have "writerOk ws (units (blocks (initGrid ws cells uninit gl) ! b) ! i)"
    if "b < length (blocks (initGrid ws cells uninit gl))"
      "i < length (units (blocks (initGrid ws cells uninit gl) ! b))" for b i
    using that by (simp add: initGrid_def initBlock_def initUnit_def writerOk_def)
  ultimately show ?thesis by (simp add: structInv_def)
qed

lemma contexts_nth:
  assumes "contexts g = allContexts ws" "b < length (blocks g)" "i < length (units (blocks g ! b))"
  shows "idxCtx (units (blocks g ! b) ! i)
           = \<lparr>blockCoordinate = coords (gridBlocks ws) ! b,
              unitCoordinate = coords (blockKernels ws) ! i\<rparr>"
    and "b < prodVec (gridBlocks ws)" and "i < prodVec (blockKernels ws)"
proof -
  have l: "length (blocks g) = length (coords (gridBlocks ws))"
    using arg_cong [OF assms(1), of length] by (simp add: contexts_def allContexts_def)
  with assms(2) show b: "b < prodVec (gridBlocks ws)" by (simp add: length_coords)
  have "contexts g ! b = allContexts ws ! b" using assms(1) by simp
  with assms(2) l have m: "map idxCtx (units (blocks g ! b)) =
      map (\<lambda>uc. \<lparr>blockCoordinate = coords (gridBlocks ws) ! b, unitCoordinate = uc\<rparr>)
        (coords (blockKernels ws))"
    by (simp add: contexts_def allContexts_def)
  from arg_cong [OF m, of length] assms(3) show i: "i < prodVec (blockKernels ws)"
    by (simp add: length_coords)
  from arg_cong [OF m, of "\<lambda>xs. xs ! i"] assms(3) i
  show "idxCtx (units (blocks g ! b) ! i)
           = \<lparr>blockCoordinate = coords (gridBlocks ws) ! b,
              unitCoordinate = coords (blockKernels ws) ! i\<rparr>"
    by (simp add: length_coords)
qed

section \<open>The shared cells after the second barrier\<close>

lemma reached_cells:
  assumes rv: "rendezvous backend (getSize_Block_Kernels_Linear ws)"
    and N: "getSize_Block_Kernels_Linear ws < 2 ^ 32"
    and G: "getSize_Grid_Blocks_Linear ws \<le> 2 ^ 32"
    and fit: "getSize_Grid_Blocks_Linear ws \<le> length gl"
  shows "\<exists>g. runSchedule backend k ws uiMult2 sched
               (initGrid ws (getSize_Block_Kernels_Linear ws) uninit gl) = Inr g
     \<and> (\<forall>b i. b < getSize_Grid_Blocks_Linear ws \<and> i < getSize_Block_Kernels_Linear ws
            \<and> 5 \<le> labelRank (pc (units (blocks g ! b) ! i)) \<longrightarrow>
          (\<forall>j. 0 < j \<and> j < getSize_Block_Kernels_Linear ws \<longrightarrow>
               shared (blocks g ! b) ! j = of_nat (getSize_Block_Kernels_Linear ws))
          \<and> shared (blocks g ! b) ! 0 =
              of_nat (Suc (card (doneAdds (getSize_Block_Kernels_Linear ws) (units (blocks g ! b)))))
                * of_nat (getSize_Block_Kernels_Linear ws)
          \<and> ((\<forall>x. 0 < x \<and> x < getSize_Block_Kernels_Linear ws \<longrightarrow>
                  labelRank (pc (units (blocks g ! b) ! x)) < 7) \<longrightarrow>
               (\<forall>j < getSize_Block_Kernels_Linear ws.
                  shared (blocks g ! b) ! j = of_nat (getSize_Block_Kernels_Linear ws))))"
proof -
  let ?N = "getSize_Block_Kernels_Linear ws" and ?G = "getSize_Grid_Blocks_Linear ws"
  let ?c = "replicate ?N (of_nat ?N :: u32)"
  from runSchedule_inv [OF fit rv gridInv_init [OF N G], where sched = sched and uninit1 = uninit
      and k = k and ?uiMult2.0 = uiMult2]
  obtain g where run: "runSchedule backend k ws uiMult2 sched (initGrid ws ?N uninit gl) = Inr g"
    and inv: "gridInv ws k uiMult2 gl g"
    by blast
  have cells: "(\<forall>j. 0 < j \<and> j < ?N \<longrightarrow> shared (blocks g ! b) ! j = of_nat ?N)
      \<and> shared (blocks g ! b) ! 0 = of_nat (Suc (card (doneAdds ?N (units (blocks g ! b))))) * of_nat ?N
      \<and> ((\<forall>x. 0 < x \<and> x < ?N \<longrightarrow> labelRank (pc (units (blocks g ! b) ! x)) < 7) \<longrightarrow>
           (\<forall>j < ?N. shared (blocks g ! b) ! j = of_nat ?N))"
    if b: "b < ?G" and i: "i < ?N" and p: "5 \<le> labelRank (pc (units (blocks g ! b) ! i))" for b i
  proof -
    let ?us = "units (blocks g ! b)" and ?sh = "shared (blocks g ! b)"
    from gridInv_D(4) [OF inv b] have sync: "syncInv ?N ?us"
      and acc: "(\<forall>i<?N. 4 \<le> rankOf ?us i) \<longrightarrow> accInv ?c ?N ?sh ?us"
      by (simp_all add: blockInv_def)
    from p have "4 < rankOf ?us i" by (simp add: rankOf_def)
    from syncInv_D(2) [OF sync i _ this] have "\<forall>j<?N. 4 \<le> rankOf ?us j" by blast
    with acc have a: "accInv ?c ?N ?sh ?us" by blast
    have N0: "0 < ?N" using i by simp
    have c1: "\<forall>j. 0 < j \<and> j < ?N \<longrightarrow> ?sh ! j = of_nat ?N"
      using accInv_D(1) [OF a] by simp
    have "(\<Sum>x\<in>doneAdds ?N ?us. ?c ! x) = (\<Sum>x\<in>doneAdds ?N ?us. (of_nat ?N :: u32))"
      by (intro sum.cong) (auto simp: doneAdds_def)
    also have "\<dots> = of_nat (card (doneAdds ?N ?us)) * of_nat ?N"
      by (simp add: finite_doneAdds)
    finally have "?sh ! 0 = of_nat ?N + of_nat (card (doneAdds ?N ?us)) * of_nat ?N"
      using accInv_D(2) [OF a N0] N0 by simp
    then have c2: "?sh ! 0 = of_nat (Suc (card (doneAdds ?N ?us))) * of_nat ?N"
      by (simp add: algebra_simps)
    have c3: "\<forall>j < ?N. ?sh ! j = of_nat ?N"
      if none: "\<forall>x. 0 < x \<and> x < ?N \<longrightarrow> labelRank (pc (?us ! x)) < 7"
    proof -
      have "doneAdds ?N ?us = {}" using none by (auto simp: doneAdds_def rankOf_def)
      with c2 have "?sh ! 0 = of_nat ?N" by simp
      with c1 show ?thesis by (metis neq0_conv)
    qed
    from c1 c2 c3 show ?thesis by blast
  qed
  from run cells show ?thesis by blast
qed

section \<open>The shared cells between the barriers\<close>




section \<open>Atomic accumulation\<close>

lemma effect_rank_ge4:
  assumes "effect k uiMult2 N b i u sh gl = (u', sh', gl')" "4 \<le> labelRank (pc u)"
  shows "4 \<le> labelRank (pc u')"
  using effect_rank_mono [OF assms(1)] assms(2) by simp

lemma accumulate_step:
  assumes wf: "wfBlock ws b blk" and bgl: "b < length gl"
    and r4: "\<forall>i<getSize_Block_Kernels_Linear ws. 4 \<le> rankOf (units blk) i"
    and acc: "accInv c (getSize_Block_Kernels_Linear ws) (shared blk) (units blk)"
  shows "\<exists>blk' gl'. stepBlock backend k ws uiMult2 blk gl i = Inr (blk', gl')
     \<and> wfBlock ws b blk' \<and> b < length gl'
     \<and> (\<forall>i<getSize_Block_Kernels_Linear ws. 4 \<le> rankOf (units blk') i)
     \<and> accInv c (getSize_Block_Kernels_Linear ws) (shared blk') (units blk')"
proof (cases "i < getSize_Block_Kernels_Linear ws")
  case False
  with wf have "stepBlock backend k ws uiMult2 blk gl i = Inr (blk, gl)"
    by (simp add: stepBlock_def wfBlock_def)
  with assms show ?thesis by simp
next
  case i: True
  let ?N = "getSize_Block_Kernels_Linear ws"
  obtain u' sh' gl' where eff:
    "effect k uiMult2 ?N b i (units blk ! i) (shared blk) gl = (u', sh', gl')"
    by (cases "effect k uiMult2 ?N b i (units blk ! i) (shared blk) gl")
  let ?blk' = "\<lparr>shared = sh', units = (units blk)[i := u']\<rparr>"
  from wf have lu: "length (units blk) = ?N" and ls: "length (shared blk) = ?N"
    by (simp_all add: wfBlock_def)
  from stepBlock_cases [OF wf i bgl, of backend k uiMult2] eff
  have "stepBlock backend k ws uiMult2 blk gl i = Inr (blk, gl) \<or>
        stepBlock backend k ws uiMult2 blk gl i = Inr (?blk', gl')"
    by (simp split: if_splits)
  then show ?thesis
  proof
    assume "stepBlock backend k ws uiMult2 blk gl i = Inr (blk, gl)"
    with assms show ?thesis by simp
  next
    assume s: "stepBlock backend k ws uiMult2 blk gl i = Inr (?blk', gl')"
    from r4 i have ri: "4 \<le> rankOf (units blk) i" by blast
    have "4 \<le> rankOf ((units blk)[i := u']) x" if x: "x < ?N" for x
    proof (cases "x = i")
      case True
      with effect_rank_ge4 [OF eff] ri i lu show ?thesis by (simp add: rankOf_update rankOf_def)
    next
      case False
      with r4 x i lu show ?thesis by (simp add: rankOf_update)
    qed
    moreover note wfBlock_step [OF wf i eff] accInv_step [OF acc i lu ls ri eff]
    moreover have "b < length gl'" using effect_length [OF eff] bgl by simp
    ultimately show ?thesis using s by simp
  qed
qed

lemma runBlock_append:
  "runBlock backend k ws uiMult2 (s1 @ s2) blk gl =
     (case runBlock backend k ws uiMult2 s1 blk gl of
        Inl e \<Rightarrow> Inl e | Inr (blk', gl') \<Rightarrow> runBlock backend k ws uiMult2 s2 blk' gl')"
  by (induction s1 arbitrary: blk gl) (auto split: sum.splits)

lemma labelRank_456:
  assumes "4 \<le> labelRank l" "labelRank l < 7"
  shows "l = L_Sync2 \<or> l = L_AtomicArg \<or> l = L_Atomic"
  using assms by (cases l) simp_all

lemma pending_step:
  assumes wf: "wfBlock ws b blk" and bgl: "b < length gl"
    and r4: "\<forall>i<getSize_Block_Kernels_Linear ws. 4 \<le> rankOf (units blk) i"
    and i: "i < getSize_Block_Kernels_Linear ws" and lt: "rankOf (units blk) i < 7"
  shows "\<exists>u' sh' gl'. stepBlock backend k ws uiMult2 blk gl i
            = Inr (\<lparr>shared = sh', units = (units blk)[i := u']\<rparr>, gl')
          \<and> rankOf (units blk) i < labelRank (pc u')"
proof -
  let ?N = "getSize_Block_Kernels_Linear ws"
  from wf have lu: "length (units blk) = ?N" by (simp add: wfBlock_def)
  from r4 i have "4 \<le> labelRank (pc (units blk ! i))" by (simp add: rankOf_def)
  from labelRank_456 [OF this] lt
  have pcs: "pc (units blk ! i) = L_Sync2 \<or> pc (units blk ! i) = L_AtomicArg
             \<or> pc (units blk ! i) = L_Atomic"
    by (simp add: rankOf_def)
  have "barrierOpen backend blk L_Sync2"
    using r4 lu by (simp add: barrierOpen_def list_all_length rankOf_def)
  with pcs have free: "\<not> (isBarrier (pc (units blk ! i))
      \<and> \<not> barrierOpen backend blk (pc (units blk ! i)))"
    by auto
  obtain u' sh' gl' where eff:
    "effect k uiMult2 ?N b i (units blk ! i) (shared blk) gl = (u', sh', gl')"
    by (cases "effect k uiMult2 ?N b i (units blk ! i) (shared blk) gl")
  from stepBlock_cases [OF wf i bgl, of backend k uiMult2] free eff
  have s: "stepBlock backend k ws uiMult2 blk gl i
            = Inr (\<lparr>shared = sh', units = (units blk)[i := u']\<rparr>, gl')"
    by simp
  from pcs have "pc (units blk ! i) \<noteq> L_Done" by auto
  from effect_rank_less(1) [OF eff this] have "rankOf (units blk) i < labelRank (pc u')"
    by (simp add: rankOf_def)
  with s show ?thesis by blast
qed

text \<open>The steps the units of a block still have to take to arrive at the third barrier.\<close>

lemma pending_decreases:
  assumes i: "i < length us" and lt: "labelRank (pc (us ! i)) < labelRank (pc u')"
    and l7: "labelRank (pc (us ! i)) < 7"
  shows "(\<Sum>u\<leftarrow>us[i := u']. 7 - labelRank (pc u)) < (\<Sum>u\<leftarrow>us. 7 - labelRank (pc u))"
proof -
  let ?f = "\<lambda>u. 7 - labelRank (pc u)"
  have u: "?f u' < ?f (us ! i)" using lt l7 by simp
  have "sum_list (map ?f (us[i := u'])) = sum_list ((map ?f us)[i := ?f u'])"
    by (simp add: map_update)
  also have "\<dots> = sum_list (map ?f us) + ?f u' - ?f (us ! i)"
    using i by (simp add: sum_list_update)
  also have "\<dots> < sum_list (map ?f us)"
  proof -
    have "map ?f us ! i \<le> sum_list (map ?f us)"
      using i by (intro elem_le_sum_list) simp
    then have "?f (us ! i) \<le> sum_list (map ?f us)" using i by simp
    with u show ?thesis by simp
  qed
  finally show ?thesis .
qed

lemma accumulate_completes:
  "wfBlock ws b blk \<Longrightarrow> b < length gl \<Longrightarrow>
     \<forall>i<getSize_Block_Kernels_Linear ws. 4 \<le> rankOf (units blk) i \<Longrightarrow>
     accInv c (getSize_Block_Kernels_Linear ws) (shared blk) (units blk) \<Longrightarrow>
     \<exists>more blk' gl'. runBlock backend k ws uiMult2 more blk gl = Inr (blk', gl')
       \<and> (\<forall>i<getSize_Block_Kernels_Linear ws. 7 \<le> rankOf (units blk') i)
       \<and> accInv c (getSize_Block_Kernels_Linear ws) (shared blk') (units blk')"
proof (induction "\<Sum>u\<leftarrow>units blk. 7 - labelRank (pc u)" arbitrary: blk gl rule: less_induct)
  case less
  let ?N = "getSize_Block_Kernels_Linear ws"
  from less.prems(1) have lu: "length (units blk) = ?N" by (simp add: wfBlock_def)
  show ?case
  proof (cases "\<forall>i<?N. 7 \<le> rankOf (units blk) i")
    case True
    with less.prems(4) have "runBlock backend k ws uiMult2 [] blk gl = Inr (blk, gl)
        \<and> (\<forall>i<?N. 7 \<le> rankOf (units blk) i) \<and> accInv c ?N (shared blk) (units blk)"
      by simp
    then show ?thesis by blast
  next
    case False
    then obtain i where i: "i < ?N" and lt: "rankOf (units blk) i < 7" by (auto simp: not_le)
    from pending_step [OF less.prems(1,2,3) i lt, of backend k uiMult2]
    obtain u' sh' gl1 where
      s: "stepBlock backend k ws uiMult2 blk gl i
            = Inr (\<lparr>shared = sh', units = (units blk)[i := u']\<rparr>, gl1)"
      and up: "rankOf (units blk) i < labelRank (pc u')"
      by blast
    let ?blk1 = "\<lparr>shared = sh', units = (units blk)[i := u']\<rparr>"
    from accumulate_step [OF less.prems, of backend k uiMult2 i] s
    have p: "wfBlock ws b ?blk1" "b < length gl1"
      "\<forall>i<?N. 4 \<le> rankOf (units ?blk1) i"
      "accInv c ?N (shared ?blk1) (units ?blk1)"
      by simp_all
    from i lu have il: "i < length (units blk)" by simp
    from pending_decreases [OF il] up lt
    have "(\<Sum>u\<leftarrow>units ?blk1. 7 - labelRank (pc u)) < (\<Sum>u\<leftarrow>units blk. 7 - labelRank (pc u))"
      by (simp add: rankOf_def)
    from less.hyps [OF this p] obtain more blk' gl' where
      "runBlock backend k ws uiMult2 more ?blk1 gl1 = Inr (blk', gl')"
      "\<forall>i<?N. 7 \<le> rankOf (units blk') i" "accInv c ?N (shared blk') (units blk')"
      by blast
    with s have "runBlock backend k ws uiMult2 (i # more) blk gl = Inr (blk', gl')
        \<and> (\<forall>i<?N. 7 \<le> rankOf (units blk') i) \<and> accInv c ?N (shared blk') (units blk')"
      by simp
    then show ?thesis by blast
  qed
qed

lemma accumulate_inv_run:
  "wfBlock ws b blk \<Longrightarrow> b < length gl \<Longrightarrow>
     \<forall>i<getSize_Block_Kernels_Linear ws. 4 \<le> rankOf (units blk) i \<Longrightarrow>
     accInv c (getSize_Block_Kernels_Linear ws) (shared blk) (units blk) \<Longrightarrow>
     \<exists>blk' gl'. runBlock backend k ws uiMult2 sched blk gl = Inr (blk', gl')
       \<and> wfBlock ws b blk' \<and> b < length gl'
       \<and> (\<forall>i<getSize_Block_Kernels_Linear ws. 4 \<le> rankOf (units blk') i)
       \<and> accInv c (getSize_Block_Kernels_Linear ws) (shared blk') (units blk')"
proof (induction sched arbitrary: blk gl)
  case Nil
  then show ?case by simp
next
  case (Cons i sched)
  from accumulate_step [OF Cons.prems, of backend k uiMult2 i]
  obtain blk1 gl1 where s: "stepBlock backend k ws uiMult2 blk gl i = Inr (blk1, gl1)"
    and p: "wfBlock ws b blk1" "b < length gl1"
      "\<forall>i<getSize_Block_Kernels_Linear ws. 4 \<le> rankOf (units blk1) i"
      "accInv c (getSize_Block_Kernels_Linear ws) (shared blk1) (units blk1)"
    by blast
  from Cons.IH [OF p] s show ?case by simp
qed

lemma wfBlock_row:
  assumes N: "prodVec (blockKernels ws) < 2 ^ 32" and g: "gridBlocks ws = \<lparr>vx = 1, vy = 1, vz = 1\<rparr>"
    and sh: "length sh = prodVec (blockKernels ws)"
  shows "wfBlock ws 0
     \<lparr>shared = sh,
      units = map (\<lambda>uc. \<lparr>idxCtx = \<lparr>blockCoordinate = \<lparr>vx = 0, vy = 0, vz = 0\<rparr>,
                                    unitCoordinate = uc\<rparr>, pc = l, reg = r\<rparr>)
                (coords (blockKernels ws))\<rparr>"
proof -
  have z: "linearize \<lparr>vx = Suc 0, vy = Suc 0, vz = Suc 0\<rparr> \<lparr>vx = 0, vy = 0, vz = 0\<rparr> = 0"
    by (simp add: linearize_def)
  from N sh show ?thesis
    by (simp add: wfBlock_def unitAt_def getSize_Block_Kernels_Linear_def length_coords
          getIdx_Block_Kernels_Linear_def getIdx_Grid_Blocks_Linear_def linearize_nth_coords g z)
qed

text \<open>
  C3: a block whose units have all just passed the second barrier, its shared region
  holding any values, on any backend, with any global buffer that has an element for the
  block. Whatever the order in which the units are advanced: no unit faults, the cells
  \<open>j > 0\<close> keep their values, and cell 0 holds at every moment its first value plus the
  values of the cells of the units that have completed their atomic addition. Every order
  can be continued until every unit has arrived at the barrier that follows the atomic
  additions, and once every unit has arrived there (or gone further), cell 0 holds the
  sum, modulo \<open>2 ^ 32\<close>, of the values the cells held: the number of units times itself
  when every cell held that number, and the number of units when every cell held 1.
\<close>

theorem atomic_accumulation_exact:
  assumes wf: "wfBlock ws b blk" and bgl: "b < length gl"
    and start: "\<forall>i<getSize_Block_Kernels_Linear ws. pc (units blk ! i) = L_AtomicArg"
  shows "\<exists>blk' gl'. runBlock backend k ws uiMult2 sched blk gl = Inr (blk', gl')
     \<and> (\<forall>j. 0 < j \<and> j < getSize_Block_Kernels_Linear ws \<longrightarrow> shared blk' ! j = shared blk ! j)
     \<and> (0 < getSize_Block_Kernels_Linear ws \<longrightarrow>
          shared blk' ! 0 = shared blk ! 0
            + (\<Sum>i\<in>doneAdds (getSize_Block_Kernels_Linear ws) (units blk'). shared blk ! i))
     \<and> ((\<forall>i<getSize_Block_Kernels_Linear ws. 7 \<le> labelRank (pc (units blk' ! i))) \<longrightarrow>
          0 < getSize_Block_Kernels_Linear ws \<longrightarrow>
            shared blk' ! 0 = (\<Sum>i<getSize_Block_Kernels_Linear ws. shared blk ! i)
          \<and> ((\<forall>i<getSize_Block_Kernels_Linear ws.
                  shared blk ! i = of_nat (getSize_Block_Kernels_Linear ws)) \<longrightarrow>
               shared blk' ! 0 = of_nat (getSize_Block_Kernels_Linear ws)
                                  * of_nat (getSize_Block_Kernels_Linear ws))
          \<and> ((\<forall>i<getSize_Block_Kernels_Linear ws. shared blk ! i = 1) \<longrightarrow>
               shared blk' ! 0 = of_nat (getSize_Block_Kernels_Linear ws)))
     \<and> (\<exists>more blk'' gl''.
          runBlock backend k ws uiMult2 (sched @ more) blk gl = Inr (blk'', gl'')
          \<and> (\<forall>i<getSize_Block_Kernels_Linear ws. 7 \<le> labelRank (pc (units blk'' ! i)))
          \<and> (\<forall>j. 0 < j \<and> j < getSize_Block_Kernels_Linear ws \<longrightarrow>
                shared blk'' ! j = shared blk ! j)
          \<and> (0 < getSize_Block_Kernels_Linear ws \<longrightarrow>
                shared blk'' ! 0 = (\<Sum>i<getSize_Block_Kernels_Linear ws. shared blk ! i)))"
proof -
  let ?N = "getSize_Block_Kernels_Linear ws" and ?c = "shared blk"
  have r: "rankOf (units blk) i = 5" if "i < ?N" for i
    using start that by (simp add: rankOf_def)
  then have r4: "\<forall>i<?N. 4 \<le> rankOf (units blk) i" by simp
  have "doneAdds ?N (units blk) = {}" using r by (auto simp: doneAdds_def)
  then have a0: "accInv ?c ?N (shared blk) (units blk)" using r by (simp add: accInv_def)
  from accumulate_inv_run [OF wf bgl r4 a0, of backend k uiMult2 sched]
  obtain blk' gl' where run: "runBlock backend k ws uiMult2 sched blk gl = Inr (blk', gl')"
    and wf': "wfBlock ws b blk'" and bgl': "b < length gl'"
    and r4': "\<forall>i<?N. 4 \<le> rankOf (units blk') i"
    and acc: "accInv ?c ?N (shared blk') (units blk')"
    by blast
  have total: "sh ! 0 = (\<Sum>i<?N. ?c ! i)"
    if a: "accInv ?c ?N sh us" and all7: "\<forall>i<?N. 7 \<le> rankOf us i" and N: "0 < ?N" for sh us
  proof -
    from accInv_D(2) [OF a N] doneAdds_all [OF all7]
    have "sh ! 0 = ?c ! 0 + (\<Sum>i\<in>{0<..<?N}. ?c ! i)" by simp
    also have "\<dots> = (\<Sum>i<?N. ?c ! i)" using N by (rule sum_from_zero)
    finally show ?thesis .
  qed
  have keep: "\<forall>j. 0 < j \<and> j < ?N \<longrightarrow> shared blk' ! j = ?c ! j"
    using accInv_D(1) [OF acc] by blast
  have part: "0 < ?N \<longrightarrow> shared blk' ! 0 = ?c ! 0 + (\<Sum>i\<in>doneAdds ?N (units blk'). ?c ! i)"
    using accInv_D(2) [OF acc] by blast
  have sq: "(\<Sum>i<?N. ?c ! i) = of_nat ?N * of_nat ?N" if "\<forall>i<?N. ?c ! i = of_nat ?N"
  proof -
    have "(\<Sum>i<?N. ?c ! i) = (\<Sum>i<?N. (of_nat ?N :: u32))"
      using that by (intro sum.cong) simp_all
    then show ?thesis by simp
  qed
  have one: "(\<Sum>i<?N. ?c ! i) = of_nat ?N" if "\<forall>i<?N. ?c ! i = 1"
  proof -
    have "(\<Sum>i<?N. ?c ! i) = (\<Sum>i<?N. (1 :: u32))"
      using that by (intro sum.cong) simp_all
    then show ?thesis by simp
  qed
  have fin: "(\<forall>i<?N. 7 \<le> labelRank (pc (units blk' ! i))) \<longrightarrow> 0 < ?N \<longrightarrow>
            shared blk' ! 0 = (\<Sum>i<?N. ?c ! i)
          \<and> ((\<forall>i<?N. ?c ! i = of_nat ?N) \<longrightarrow> shared blk' ! 0 = of_nat ?N * of_nat ?N)
          \<and> ((\<forall>i<?N. ?c ! i = 1) \<longrightarrow> shared blk' ! 0 = of_nat ?N)"
  proof (intro impI)
    assume all7: "\<forall>i<?N. 7 \<le> labelRank (pc (units blk' ! i))" and N: "0 < ?N"
    then have "\<forall>i<?N. 7 \<le> rankOf (units blk') i" by (simp add: rankOf_def)
    from total [OF acc this N] sq one
    show "shared blk' ! 0 = (\<Sum>i<?N. ?c ! i)
          \<and> ((\<forall>i<?N. ?c ! i = of_nat ?N) \<longrightarrow> shared blk' ! 0 = of_nat ?N * of_nat ?N)
          \<and> ((\<forall>i<?N. ?c ! i = 1) \<longrightarrow> shared blk' ! 0 = of_nat ?N)"
      by simp
  qed
  from accumulate_completes [OF wf' bgl' r4' acc, of backend k uiMult2]
  obtain more blk'' gl'' where
    run2: "runBlock backend k ws uiMult2 more blk' gl' = Inr (blk'', gl'')"
    and all7: "\<forall>i<?N. 7 \<le> rankOf (units blk'') i"
    and acc2: "accInv ?c ?N (shared blk'') (units blk'')"
    by blast
  from run run2 have run3: "runBlock backend k ws uiMult2 (sched @ more) blk gl = Inr (blk'', gl'')"
    by (simp add: runBlock_append)
  from all7 have all7': "\<forall>i<?N. 7 \<le> labelRank (pc (units blk'' ! i))" by (simp add: rankOf_def)
  have keep2: "\<forall>j. 0 < j \<and> j < ?N \<longrightarrow> shared blk'' ! j = ?c ! j"
    using accInv_D(1) [OF acc2] by blast
  have tot2: "0 < ?N \<longrightarrow> shared blk'' ! 0 = (\<Sum>i<?N. ?c ! i)"
    using total [OF acc2 all7] by blast
  from run3 all7' keep2 tot2
  have cont: "\<exists>more blk'' gl''.
          runBlock backend k ws uiMult2 (sched @ more) blk gl = Inr (blk'', gl'')
          \<and> (\<forall>i<?N. 7 \<le> labelRank (pc (units blk'' ! i)))
          \<and> (\<forall>j. 0 < j \<and> j < ?N \<longrightarrow> shared blk'' ! j = ?c ! j)
          \<and> (0 < ?N \<longrightarrow> shared blk'' ! 0 = (\<Sum>i<?N. ?c ! i))"
    by (intro exI [of _ more] exI [of _ blk''] exI [of _ gl''] conjI)
  from run keep part fin cont show ?thesis
    by (intro exI [of _ blk'] exI [of _ gl'] conjI)
qed

theorem atomic_accumulation_exact_witness:
  "wfBlock \<lparr>gridBlocks = \<lparr>vx = 1, vy = 1, vz = 1\<rparr>, blockKernels = \<lparr>vx = 16, vy = 1, vz = 1\<rparr>\<rparr> 0
     \<lparr>shared = replicate 16 1,
      units = map (\<lambda>uc. \<lparr>idxCtx = \<lparr>blockCoordinate = \<lparr>vx = 0, vy = 0, vz = 0\<rparr>,
                                    unitCoordinate = uc\<rparr>, pc = L_AtomicArg, reg = 0\<rparr>)
                (coords \<lparr>vx = 16, vy = 1, vz = 1\<rparr>)\<rparr>
   \<and> (\<exists>blk' gl'. runBlock AccThreads \<lparr>TuiNumUselessWork = 100, m_uiMult = 42\<rparr>
          \<lparr>gridBlocks = \<lparr>vx = 1, vy = 1, vz = 1\<rparr>, blockKernels = \<lparr>vx = 16, vy = 1, vz = 1\<rparr>\<rparr> 5
          (concat (map (\<lambda>i. [16 - i, 16 - i]) [1..<16]) @ [0])
          \<lparr>shared = replicate 16 1,
           units = map (\<lambda>uc. \<lparr>idxCtx = \<lparr>blockCoordinate = \<lparr>vx = 0, vy = 0, vz = 0\<rparr>,
                                         unitCoordinate = uc\<rparr>, pc = L_AtomicArg, reg = 0\<rparr>)
                     (coords \<lparr>vx = 16, vy = 1, vz = 1\<rparr>)\<rparr> [0] = Inr (blk', gl')
        \<and> map pc (units blk') = replicate 16 L_Sync3
        \<and> shared blk' ! 0 = 16 \<and> shared blk' ! 15 = 1)
   \<and> (\<exists>more blk' gl'. runBlock AccCuda \<lparr>TuiNumUselessWork = 100, m_uiMult = 42\<rparr>
          \<lparr>gridBlocks = \<lparr>vx = 1, vy = 1, vz = 1\<rparr>, blockKernels = \<lparr>vx = 16, vy = 16, vz = 1\<rparr>\<rparr> 5
          ([3, 200, 3] @ more)
          \<lparr>shared = replicate 256 1,
           units = map (\<lambda>uc. \<lparr>idxCtx = \<lparr>blockCoordinate = \<lparr>vx = 0, vy = 0, vz = 0\<rparr>,
                                         unitCoordinate = uc\<rparr>, pc = L_AtomicArg, reg = 0\<rparr>)
                     (coords \<lparr>vx = 16, vy = 16, vz = 1\<rparr>)\<rparr> [0] = Inr (blk', gl')
        \<and> (\<forall>i<256. 7 \<le> labelRank (pc (units blk' ! i)))
        \<and> shared blk' ! 0 = 256)"
proof -
  let ?k = "\<lparr>TuiNumUselessWork = 100, m_uiMult = 42\<rparr>"
  let ?ws = "\<lparr>gridBlocks = \<lparr>vx = 1, vy = 1, vz = 1\<rparr>, blockKernels = \<lparr>vx = 16, vy = 1, vz = 1\<rparr>\<rparr>"
  let ?blk = "\<lparr>shared = replicate 16 (1 :: u32),
      units = map (\<lambda>uc. \<lparr>idxCtx = \<lparr>blockCoordinate = \<lparr>vx = 0, vy = 0, vz = 0\<rparr>,
                                    unitCoordinate = uc\<rparr>, pc = L_AtomicArg, reg = 0\<rparr>)
                (coords \<lparr>vx = 16, vy = 1, vz = 1\<rparr>)\<rparr>"
  let ?s = "concat (map (\<lambda>i. [16 - i, 16 - i]) [1..<16]) @ [0] :: nat list"
  let ?ws2 = "\<lparr>gridBlocks = \<lparr>vx = 1, vy = 1, vz = 1\<rparr>, blockKernels = \<lparr>vx = 16, vy = 16, vz = 1\<rparr>\<rparr>"
  let ?blk2 = "\<lparr>shared = replicate 256 (1 :: u32),
      units = map (\<lambda>uc. \<lparr>idxCtx = \<lparr>blockCoordinate = \<lparr>vx = 0, vy = 0, vz = 0\<rparr>,
                                    unitCoordinate = uc\<rparr>, pc = L_AtomicArg, reg = 0\<rparr>)
                (coords \<lparr>vx = 16, vy = 16, vz = 1\<rparr>)\<rparr>"
  have n: "getSize_Block_Kernels_Linear ?ws = 16"
    by (simp add: getSize_Block_Kernels_Linear_def prodVec_def)
  have n2: "getSize_Block_Kernels_Linear ?ws2 = 256"
    by (simp add: getSize_Block_Kernels_Linear_def prodVec_def)
  have wf: "wfBlock ?ws 0 ?blk"
    using wfBlock_row [of ?ws "replicate 16 1" L_AtomicArg 0] by (simp add: prodVec_def)
  have wf2: "wfBlock ?ws2 0 ?blk2"
    using wfBlock_row [of ?ws2 "replicate 256 1" L_AtomicArg 0] by (simp add: prodVec_def)
  have bgl: "0 < length [0 :: u32]" by simp
  have start: "\<forall>i<getSize_Block_Kernels_Linear ?ws. pc (units ?blk ! i) = L_AtomicArg"
    unfolding n by (simp add: length_coords prodVec_def)
  have start2: "\<forall>i<getSize_Block_Kernels_Linear ?ws2. pc (units ?blk2 ! i) = L_AtomicArg"
    unfolding n2 by (simp add: length_coords prodVec_def)
  have first: "\<exists>blk' gl'. runBlock AccThreads ?k ?ws 5 ?s ?blk [0] = Inr (blk', gl')
        \<and> map pc (units blk') = replicate 16 L_Sync3
        \<and> shared blk' ! 0 = 16 \<and> shared blk' ! 15 = 1"
  proof -
    from atomic_accumulation_exact [OF wf bgl start, of AccThreads ?k 5 ?s]
    obtain blk' gl' where run: "runBlock AccThreads ?k ?ws 5 ?s ?blk [0] = Inr (blk', gl')"
      and keep: "\<forall>j. 0 < j \<and> j < getSize_Block_Kernels_Linear ?ws \<longrightarrow>
                   shared blk' ! j = shared ?blk ! j"
      and total: "(\<forall>i<getSize_Block_Kernels_Linear ?ws. 7 \<le> labelRank (pc (units blk' ! i))) \<longrightarrow>
          0 < getSize_Block_Kernels_Linear ?ws \<longrightarrow>
            shared blk' ! 0 = (\<Sum>i<getSize_Block_Kernels_Linear ?ws. shared ?blk ! i)
          \<and> ((\<forall>i<getSize_Block_Kernels_Linear ?ws.
                  shared ?blk ! i = of_nat (getSize_Block_Kernels_Linear ?ws)) \<longrightarrow>
               shared blk' ! 0 = of_nat (getSize_Block_Kernels_Linear ?ws)
                                  * of_nat (getSize_Block_Kernels_Linear ?ws))
          \<and> ((\<forall>i<getSize_Block_Kernels_Linear ?ws. shared ?blk ! i = 1) \<longrightarrow>
               shared blk' ! 0 = of_nat (getSize_Block_Kernels_Linear ?ws))"
      by (elim exE conjE)
    have "(case runBlock AccThreads ?k ?ws 5 ?s ?blk [0] of
             Inl e \<Rightarrow> [] | Inr (b, g) \<Rightarrow> map pc (units b)) = replicate 16 L_Sync3"
      by code_simp
    with run have pcs: "map pc (units blk') = replicate 16 L_Sync3" by simp
    from arg_cong [OF pcs, of length] have len: "length (units blk') = 16" by simp
    have p: "pc (units blk' ! i) = L_Sync3" if "i < 16" for i
      using that len nth_map [of i "units blk'" pc] unfolding pcs by simp
    have all7: "\<forall>i<getSize_Block_Kernels_Linear ?ws. 7 \<le> labelRank (pc (units blk' ! i))"
      unfolding n using p by simp
    have pos: "0 < getSize_Block_Kernels_Linear ?ws" unfolding n by simp
    have ones: "\<forall>i<getSize_Block_Kernels_Linear ?ws. shared ?blk ! i = 1" unfolding n by simp
    from total all7 pos ones have "shared blk' ! 0 = of_nat (getSize_Block_Kernels_Linear ?ws)"
      by blast
    then have c0: "shared blk' ! 0 = 16" unfolding n by simp
    from keep have "shared blk' ! 15 = shared ?blk ! 15" unfolding n by simp
    then have c15: "shared blk' ! 15 = 1" by simp
    from run pcs c0 c15 show ?thesis by (intro exI [of _ blk'] exI [of _ gl'] conjI)
  qed
  have second: "\<exists>more blk' gl'. runBlock AccCuda ?k ?ws2 5 ([3, 200, 3] @ more) ?blk2 [0]
          = Inr (blk', gl')
        \<and> (\<forall>i<256. 7 \<le> labelRank (pc (units blk' ! i)))
        \<and> shared blk' ! 0 = 256"
  proof -
    from atomic_accumulation_exact [OF wf2 bgl start2, of AccCuda ?k 5 "[3, 200, 3]"]
    obtain more blk'' gl'' where
      run: "runBlock AccCuda ?k ?ws2 5 ([3, 200, 3] @ more) ?blk2 [0] = Inr (blk'', gl'')"
      and all7: "\<forall>i<getSize_Block_Kernels_Linear ?ws2. 7 \<le> labelRank (pc (units blk'' ! i))"
      and tot: "0 < getSize_Block_Kernels_Linear ?ws2 \<longrightarrow>
                shared blk'' ! 0 = (\<Sum>i<getSize_Block_Kernels_Linear ?ws2. shared ?blk2 ! i)"
      by (elim exE conjE)
    from all7 have a: "\<forall>i<256. 7 \<le> labelRank (pc (units blk'' ! i))" unfolding n2 .
    from tot have "shared blk'' ! 0 = (\<Sum>i<256. shared ?blk2 ! i)" unfolding n2 by simp
    also have "\<dots> = (\<Sum>i\<in>{..<256 :: nat}. (1 :: u32))" by (intro sum.cong) simp_all
    also have "\<dots> = 256" by simp
    finally have c: "shared blk'' ! 0 = 256" .
    from run a c show ?thesis by (intro exI [of _ more] exI [of _ blk''] exI [of _ gl''] conjI)
  qed
  from wf first second show ?thesis by (intro conjI)
qed

section \<open>The frame of the kernel on global memory\<close>

lemma reachable_unit:
  assumes run: "runSchedule backend k ws uiMult2 sched (initGrid ws cells uninit gl) = Inr g"
    and b: "b < length (blocks g)" and i: "i < length (units (blocks g ! b))"
  shows "getIdx_Block_Kernels_Linear ws (idxCtx (units (blocks g ! b) ! i)) = i"
    and "getIdx_Grid_Blocks_Linear ws (idxCtx (units (blocks g ! b) ! i)) = b"
    and "writerOk ws (units (blocks g ! b) ! i)"
proof -
  from structInv_run [OF structInv_init run] have s: "structInv ws g" .
  then have c: "contexts g = allContexts ws" by (simp add: structInv_def)
  note n = contexts_nth [OF c b i]
  show "getIdx_Block_Kernels_Linear ws (idxCtx (units (blocks g ! b) ! i)) = i"
    using n by (simp add: getIdx_Block_Kernels_Linear_def linearize_nth_coords)
  show "getIdx_Grid_Blocks_Linear ws (idxCtx (units (blocks g ! b) ! i)) = b"
    using n by (simp add: getIdx_Grid_Blocks_Linear_def linearize_nth_coords)
  show "writerOk ws (units (blocks g ! b) ! i)"
    using s b i by (simp add: structInv_def)
qed

text \<open>
  C10: in every state reached from the start of a grid, on every backend and under every
  order of advancing the units, a step of unit \<open>i\<close> of block \<open>b\<close> leaves the length of the
  global buffer as it is, changes no element other than the one at the block's linear
  index (as the kernel reads it, in 32 bits), and changes nothing at all when the unit's
  linear index is not 0; the shared regions and units of the other blocks are untouched.
  The step that writes is the last one of the unit with linear index 0: it stores the
  value read from cell 0 of the shared region, times \<^verbatim>\<open>m_uiMult\<close>, times \<^verbatim>\<open>uiMult2\<close>, in
  the element of the block.
\<close>

theorem kernel_global_frame:
  assumes run: "runSchedule backend k ws uiMult2 sched (initGrid ws cells uninit gl) = Inr g"
    and step: "stepUnit backend k ws uiMult2 g (b, i) = Inr g'"
  shows "length (global g') = length (global g)
     \<and> (\<forall>x. x \<noteq> unat (of_nat b :: u32) \<longrightarrow> global g' ! x = global g ! x)
     \<and> ((of_nat i :: u32) \<noteq> 0 \<longrightarrow> global g' = global g)
     \<and> (b < 2 ^ 32 \<longrightarrow> (\<forall>x. x \<noteq> b \<longrightarrow> global g' ! x = global g ! x))
     \<and> (i < 2 ^ 32 \<and> i \<noteq> 0 \<longrightarrow> global g' = global g)
     \<and> (\<forall>b'. b' \<noteq> b \<longrightarrow> blocks g' ! b' = blocks g ! b')
     \<and> (b < length (blocks g) \<and> i < length (units (blocks g ! b)) \<and> b < 2 ^ 32 \<and> i < 2 ^ 32
          \<and> pc (units (blocks g ! b) ! i) = L_Write \<longrightarrow>
        i = 0 \<and> global g' = (global g)[b := reg (units (blocks g ! b) ! i) * m_uiMult k * uiMult2])"
proof -
  have wr: "i = 0 \<and> global g' = (global g)[b := reg (units (blocks g ! b) ! i) * m_uiMult k * uiMult2]"
    if b: "b < length (blocks g)" and i: "i < length (units (blocks g ! b))"
      and bb: "b < 2 ^ 32" and ii: "i < 2 ^ 32"
      and w: "pc (units (blocks g ! b) ! i) = L_Write"
  proof -
    note at = reachable_unit [OF run b i]
    from at(3) w at(1) have "(of_nat i :: u32) = 0" by (simp add: writerOk_def)
    with ii have i0: "i = 0" by (simp add: of_nat_u32_eq_0)
    from bb have ub: "unat (of_nat b :: u32) = b" by (rule unat_of_nat_u32)
    from step b i w at(2) ub
    have "global g' = (global g)[b := reg (units (blocks g ! b) ! i) * m_uiMult k * uiMult2]"
      by (auto simp: stepUnit_def stepBlock_def kernelStep_def Let_def split: if_splits)
    with i0 show ?thesis by simp
  qed
  have main: "length (global g') = length (global g)
     \<and> (\<forall>x. x \<noteq> unat (of_nat b :: u32) \<longrightarrow> global g' ! x = global g ! x)
     \<and> ((of_nat i :: u32) \<noteq> 0 \<longrightarrow> global g' = global g)
     \<and> (\<forall>b'. b' \<noteq> b \<longrightarrow> blocks g' ! b' = blocks g ! b')"
    using stepUnit_Inr [OF step]
  proof
    assume "g' = g"
    then show ?thesis by simp
  next
    assume "b < length (blocks g) \<and> i < length (units (blocks g ! b)) \<and>
     (\<exists>u' sh' gl'. kernelStep k ws uiMult2 (units (blocks g ! b) ! i) (shared (blocks g ! b))
                      (global g) = Inr (u', sh', gl')
        \<and> g' = \<lparr>global = gl',
                 blocks = (blocks g)[b := \<lparr>shared = sh',
                                           units = (units (blocks g ! b))[i := u']\<rparr>]\<rparr>)"
    then obtain u' sh' gl' where b: "b < length (blocks g)"
      and i: "i < length (units (blocks g ! b))"
      and ks: "kernelStep k ws uiMult2 (units (blocks g ! b) ! i) (shared (blocks g ! b))
                 (global g) = Inr (u', sh', gl')"
      and g': "g' = \<lparr>global = gl',
                 blocks = (blocks g)[b := \<lparr>shared = sh',
                                           units = (units (blocks g ! b))[i := u']\<rparr>]\<rparr>"
      by blast
    let ?u = "units (blocks g ! b) ! i"
    note at = reachable_unit [OF run b i]
    from kernelStep_global [OF ks] show ?thesis
    proof
      assume "gl' = global g"
      then show ?thesis by (simp add: g')
    next
      assume "pc ?u = L_Write \<and>
        gl' = (global g)[unat (of_nat (getIdx_Grid_Blocks_Linear ws (idxCtx ?u)) :: u32)
                          := reg ?u * m_uiMult k * uiMult2]"
      then have w: "pc ?u = L_Write"
        and gl': "gl' = (global g)[unat (of_nat b :: u32) := reg ?u * m_uiMult k * uiMult2]"
        using at(2) by simp_all
      from at(3) w at(1) have "(of_nat i :: u32) = 0" by (simp add: writerOk_def)
      with gl' show ?thesis by (simp add: g')
    qed
  qed
  moreover have "unat (of_nat b :: u32) = b" if "b < 2 ^ 32"
    using that by (rule unat_of_nat_u32)
  moreover have "(of_nat i :: u32) \<noteq> 0" if "i < 2 ^ 32 \<and> i \<noteq> 0"
    using that by (simp add: of_nat_u32_eq_0)
  ultimately show ?thesis using wr by simp
qed

theorem kernel_global_frame_witness:
  "\<exists>g g'. runSchedule AccThreads \<lparr>TuiNumUselessWork = 100, m_uiMult = 42\<rparr>
        \<lparr>gridBlocks = \<lparr>vx = 2, vy = 1, vz = 1\<rparr>, blockKernels = \<lparr>vx = 2, vy = 1, vz = 1\<rparr>\<rparr> 5
        (concat (replicate 9 [(1, 0), (1, 1)]))
        (initGrid \<lparr>gridBlocks = \<lparr>vx = 2, vy = 1, vz = 1\<rparr>, blockKernels = \<lparr>vx = 2, vy = 1, vz = 1\<rparr>\<rparr>
           2 (\<lambda>_ _. 0) [7, 9]) = Inr g
     \<and> stepUnit AccThreads \<lparr>TuiNumUselessWork = 100, m_uiMult = 42\<rparr>
        \<lparr>gridBlocks = \<lparr>vx = 2, vy = 1, vz = 1\<rparr>, blockKernels = \<lparr>vx = 2, vy = 1, vz = 1\<rparr>\<rparr> 5
        g (1, 0) = Inr g'
     \<and> global g = [7, 9] \<and> global g' = [7, 840]
     \<and> length (global g') = length (global g) \<and> global g' ! 0 = global g ! 0"
proof -
  let ?ws = "\<lparr>gridBlocks = \<lparr>vx = 2, vy = 1, vz = 1\<rparr>, blockKernels = \<lparr>vx = 2, vy = 1, vz = 1\<rparr>\<rparr>"
  let ?k = "\<lparr>TuiNumUselessWork = 100, m_uiMult = 42\<rparr>"
  let ?sched = "concat (replicate 9 [(1, 0), (1, 1)]) :: (nat \<times> nat) list"
  have "(case runSchedule AccThreads ?k ?ws 5 ?sched (initGrid ?ws 2 (\<lambda>_ _. 0) [7, 9]) of
           Inl e \<Rightarrow> None
         | Inr g \<Rightarrow> (case stepUnit AccThreads ?k ?ws 5 g (1, 0) of
                      Inl e \<Rightarrow> None | Inr g' \<Rightarrow> Some (global g, global g')))
        = Some ([7, 9], [7, 840])"
    by code_simp
  then obtain g g' where
    run: "runSchedule AccThreads ?k ?ws 5 ?sched (initGrid ?ws 2 (\<lambda>_ _. 0) [7, 9]) = Inr g"
    and step: "stepUnit AccThreads ?k ?ws 5 g (1, 0) = Inr g'"
    and gl: "global g = [7, 9]" "global g' = [7, 840]"
    by (auto split: sum.splits)
  from kernel_global_frame [OF run step]
  have "length (global g') = length (global g)"
    and "\<forall>x. x \<noteq> unat (of_nat 1 :: u32) \<longrightarrow> global g' ! x = global g ! x"
    by blast+
  then have "length (global g') = length (global g)" "global g' ! 0 = global g ! 0"
    by simp_all
  with run step gl show ?thesis by blast
qed

section \<open>Enumeration of the units and linearization\<close>

lemma concat_allContexts:
  "concat (allContexts ws) =
     map (\<lambda>(bc, uc). \<lparr>blockCoordinate = bc, unitCoordinate = uc\<rparr>)
       (List.product (coords (gridBlocks ws)) (coords (blockKernels ws)))"
  by (simp add: allContexts_def product_concat_map map_concat comp_def)

lemma distinct_allContexts: "distinct (concat (allContexts ws))"
proof -
  have "inj (\<lambda>(bc, uc). \<lparr>blockCoordinate = bc, unitCoordinate = uc\<rparr>)"
    by (auto simp: inj_on_def)
  then have "inj_on (\<lambda>(bc, uc). \<lparr>blockCoordinate = bc, unitCoordinate = uc\<rparr>)
      (set (List.product (coords (gridBlocks ws)) (coords (blockKernels ws))))"
    by (rule inj_on_subset) simp
  then show ?thesis
    unfolding concat_allContexts
    by (simp add: distinct_map distinct_product distinct_coords)
qed

lemma set_allContexts:
  "set (concat (allContexts ws)) =
     {c. inExtent (gridBlocks ws) (blockCoordinate c) \<and> inExtent (blockKernels ws) (unitCoordinate c)}"
proof (rule set_eqI)
  fix c :: IndexContext
  have c: "c = \<lparr>blockCoordinate = blockCoordinate c, unitCoordinate = unitCoordinate c\<rparr>" by simp
  show "c \<in> set (concat (allContexts ws)) \<longleftrightarrow>
        c \<in> {c. inExtent (gridBlocks ws) (blockCoordinate c) \<and> inExtent (blockKernels ws) (unitCoordinate c)}"
  proof
    assume "c \<in> set (concat (allContexts ws))"
    then show "c \<in> {c. inExtent (gridBlocks ws) (blockCoordinate c) \<and>
                       inExtent (blockKernels ws) (unitCoordinate c)}"
      by (auto simp: concat_allContexts set_coords)
  next
    assume "c \<in> {c. inExtent (gridBlocks ws) (blockCoordinate c) \<and>
                    inExtent (blockKernels ws) (unitCoordinate c)}"
    then have "(blockCoordinate c, unitCoordinate c)
        \<in> set (List.product (coords (gridBlocks ws)) (coords (blockKernels ws)))"
      by (simp add: set_coords)
    then have "(\<lambda>(bc, uc). \<lparr>blockCoordinate = bc, unitCoordinate = uc\<rparr>)
                 (blockCoordinate c, unitCoordinate c) \<in> set (concat (allContexts ws))"
      unfolding concat_allContexts set_map by (rule imageI)
    then have "\<lparr>blockCoordinate = blockCoordinate c, unitCoordinate = unitCoordinate c\<rparr>
                 \<in> set (concat (allContexts ws))"
      by (simp only: prod.case)
    with c show "c \<in> set (concat (allContexts ws))" by (simp only:)
  qed
qed

lemma kernelStep_rank:
  assumes "kernelStep k ws uiMult2 u sh gl = Inr (u', sh', gl')"
  shows "(pc u = L_Done \<and> u' = u \<and> sh' = sh \<and> gl' = gl)
         \<or> labelRank (pc u) < labelRank (pc u')"
  using assms
  by (cases "pc u")
     (auto simp: kernelStep_def Let_def atomicOp_Add_def split: if_splits)

lemma stepUnit_pass:
  assumes "stepUnit backend k ws uiMult2 g (b, i) = Inr g'"
  shows "g' = g \<or>
    (b < length (blocks g) \<and> i < length (units (blocks g ! b))
     \<and> labelRank (pc (units (blocks g ! b) ! i)) < labelRank (pc (units (blocks g' ! b) ! i))
     \<and> (\<forall>b' i'. (b', i') \<noteq> (b, i) \<longrightarrow>
           units (blocks g' ! b') ! i' = units (blocks g ! b') ! i'))"
  using stepUnit_Inr [OF assms]
proof
  assume "g' = g"
  then show ?thesis by simp
next
  assume "b < length (blocks g) \<and> i < length (units (blocks g ! b)) \<and>
     (\<exists>u' sh' gl'. kernelStep k ws uiMult2 (units (blocks g ! b) ! i) (shared (blocks g ! b))
                      (global g) = Inr (u', sh', gl')
        \<and> g' = \<lparr>global = gl',
                 blocks = (blocks g)[b := \<lparr>shared = sh',
                                           units = (units (blocks g ! b))[i := u']\<rparr>]\<rparr>)"
  then obtain u' sh' gl' where b: "b < length (blocks g)"
    and i: "i < length (units (blocks g ! b))"
    and ks: "kernelStep k ws uiMult2 (units (blocks g ! b) ! i) (shared (blocks g ! b))
               (global g) = Inr (u', sh', gl')"
    and g': "g' = \<lparr>global = gl',
               blocks = (blocks g)[b := \<lparr>shared = sh',
                                         units = (units (blocks g ! b))[i := u']\<rparr>]\<rparr>"
    by blast
  from kernelStep_rank [OF ks] show ?thesis
  proof
    assume "pc (units (blocks g ! b) ! i) = L_Done \<and> u' = units (blocks g ! b) ! i
        \<and> sh' = shared (blocks g ! b) \<and> gl' = global g"
    then have u: "u' = units (blocks g ! b) ! i" and sh: "sh' = shared (blocks g ! b)"
      and gl: "gl' = global g"
      by simp_all
    have e: "\<lparr>shared = shared (blocks g ! b), units = units (blocks g ! b)\<rparr> = blocks g ! b"
      by (cases "blocks g ! b") simp
    have "g' = \<lparr>global = global g, blocks = blocks g\<rparr>"
      unfolding g' u sh gl by (simp add: e)
    also have "\<dots> = g" by (cases g) simp
    finally show ?thesis by simp
  next
    assume lt: "labelRank (pc (units (blocks g ! b) ! i)) < labelRank (pc u')"
    have other: "units (blocks g' ! b') ! i' = units (blocks g ! b') ! i'"
      if "(b', i') \<noteq> (b, i)" for b' i'
    proof (cases "b' = b")
      case True
      with that have "i' \<noteq> i" by simp
      with True b show ?thesis unfolding g' by simp
    next
      case False
      then show ?thesis unfolding g' by simp
    qed
    from b i lt have "labelRank (pc (units (blocks g ! b) ! i))
        < labelRank (pc (units (blocks g' ! b) ! i))"
      unfolding g' by simp
    with b i other show ?thesis by blast
  qed
qed

lemma runSchedule_rank_mono:
  "runSchedule backend k ws uiMult2 sched g = Inr g' \<Longrightarrow>
     labelRank (pc (units (blocks g ! b) ! i)) \<le> labelRank (pc (units (blocks g' ! b) ! i))"
proof (induction sched arbitrary: g)
  case Nil
  then show ?case by simp
next
  case (Cons bi sched)
  from Cons.prems obtain g1 where s: "stepUnit backend k ws uiMult2 g bi = Inr g1"
    and r: "runSchedule backend k ws uiMult2 sched g1 = Inr g'"
    by (auto split: sum.splits)
  obtain b0 i0 where bi: "bi = (b0, i0)" by (cases bi)
  from stepUnit_pass [OF s [unfolded bi]]
  have "labelRank (pc (units (blocks g ! b) ! i)) \<le> labelRank (pc (units (blocks g1 ! b) ! i))"
  proof
    assume "g1 = g"
    then show ?thesis by simp
  next
    assume a: "b0 < length (blocks g) \<and> i0 < length (units (blocks g ! b0))
     \<and> labelRank (pc (units (blocks g ! b0) ! i0)) < labelRank (pc (units (blocks g1 ! b0) ! i0))
     \<and> (\<forall>b' i'. (b', i') \<noteq> (b0, i0) \<longrightarrow>
           units (blocks g1 ! b') ! i' = units (blocks g ! b') ! i')"
    show ?thesis
    proof (cases "(b, i) = (b0, i0)")
      case True
      with a show ?thesis by simp
    next
      case False
      with a have "units (blocks g1 ! b) ! i = units (blocks g ! b) ! i" by blast
      then show ?thesis by simp
    qed
  qed
  also note Cons.IH [OF r]
  finally show ?case .
qed

lemma initGrid_Fill:
  assumes "b < getSize_Grid_Blocks_Linear ws" "i < getSize_Block_Kernels_Linear ws"
  shows "pc (units (blocks (initGrid ws cells uninit gl) ! b) ! i) = L_Fill"
  using assms
  by (simp add: initGrid_def initBlock_def initUnit_def length_coords
        getSize_Grid_Blocks_Linear_def getSize_Block_Kernels_Linear_def)

lemma allDone_D:
  assumes "allDone g" "b < length (blocks g)" "i < length (units (blocks g ! b))"
  shows "pc (units (blocks g ! b) ! i) = L_Done"
  using assms by (simp add: allDone_def list_all_length)

lemma contexts_lengths:
  assumes "contexts g = allContexts ws"
  shows "length (blocks g) = getSize_Grid_Blocks_Linear ws"
    and "b < getSize_Grid_Blocks_Linear ws \<Longrightarrow>
           length (units (blocks g ! b)) = getSize_Block_Kernels_Linear ws"
proof -
  show l: "length (blocks g) = getSize_Grid_Blocks_Linear ws"
    using arg_cong [OF assms, of length]
    by (simp add: contexts_def allContexts_def length_coords getSize_Grid_Blocks_Linear_def)
  assume b: "b < getSize_Grid_Blocks_Linear ws"
  have "contexts g ! b = allContexts ws ! b" using assms by simp
  with b l have "map idxCtx (units (blocks g ! b)) =
      map (\<lambda>uc. \<lparr>blockCoordinate = coords (gridBlocks ws) ! b, unitCoordinate = uc\<rparr>)
        (coords (blockKernels ws))"
    by (simp add: contexts_def allContexts_def length_coords getSize_Grid_Blocks_Linear_def)
  from arg_cong [OF this, of length]
  show "length (units (blocks g ! b)) = getSize_Block_Kernels_Linear ws"
    by (simp add: length_coords getSize_Block_Kernels_Linear_def)
qed

text \<open>
  C4: the coordinates enumerated for an extent are pairwise different, are exactly the
  coordinates below the extent in every dimension, and their linear indices, in the order
  of the enumeration, are \<open>0, 1, ..., prodVec ext - 1\<close>. A grid starts with one unit for
  each coordinate of the block extent in each block of the grid extent, no coordinate
  twice, each unit at the first statement of the kernel body. On every backend and under
  every order of advancing the units, in every state reached the units are these; a unit
  never goes back in the body: from one reached state to a later one no unit is at an
  earlier statement, and a step either changes nothing or moves one unit forward and
  leaves every other unit as it is. When \<open>execute\<close> returns a result, the run it made has
  taken each of these units to the end of the body. Where the barrier holds the units of
  a block back until all have arrived and the sizes fit, every order of advancing the
  units can be continued to one under which \<open>execute\<close> returns a result. For the block
  extent (4, 4, 2) there are 32 units and their linear indices are \<open>0, ..., 31\<close>.
\<close>

theorem units_enumerated_once:
  "distinct (coords ext) \<and> set (coords ext) = {c. inExtent ext c}
   \<and> length (coords ext) = prodVec ext
   \<and> map (linearize ext) (coords ext) = [0..<prodVec ext]
   \<and> distinct (concat (allContexts ws))
   \<and> set (concat (allContexts ws)) =
        {c. inExtent (gridBlocks ws) (blockCoordinate c) \<and> inExtent (blockKernels ws) (unitCoordinate c)}
   \<and> (\<forall>b<getSize_Grid_Blocks_Linear ws. \<forall>i<getSize_Block_Kernels_Linear ws.
         pc (units (blocks (initGrid ws cells uninit gl) ! b) ! i) = L_Fill)
   \<and> (\<forall>g. runSchedule backend k ws uiMult2 sched (initGrid ws cells uninit gl) = Inr g \<longrightarrow>
          contexts g = allContexts ws
        \<and> length (blocks g) = getSize_Grid_Blocks_Linear ws
        \<and> (\<forall>b<getSize_Grid_Blocks_Linear ws.
             length (units (blocks g ! b)) = getSize_Block_Kernels_Linear ws)
        \<and> (\<forall>pre post g1. sched = pre @ post
               \<and> runSchedule backend k ws uiMult2 pre (initGrid ws cells uninit gl) = Inr g1 \<longrightarrow>
             (\<forall>b i. labelRank (pc (units (blocks g1 ! b) ! i))
                       \<le> labelRank (pc (units (blocks g ! b) ! i))))
        \<and> (\<forall>b i g'. stepUnit backend k ws uiMult2 g (b, i) = Inr g' \<longrightarrow>
             g' = g \<or>
             (b < getSize_Grid_Blocks_Linear ws \<and> i < getSize_Block_Kernels_Linear ws
              \<and> labelRank (pc (units (blocks g ! b) ! i))
                   < labelRank (pc (units (blocks g' ! b) ! i))
              \<and> (\<forall>b' i'. (b', i') \<noteq> (b, i) \<longrightarrow>
                    units (blocks g' ! b') ! i' = units (blocks g ! b') ! i'))))
   \<and> (\<forall>r. execute backend k ws gl uiMult2 uninit sched = Some (Inr r) \<longrightarrow>
          (\<exists>g. runSchedule backend k ws uiMult2
                  (if backend = AccSerial then serialSchedule ws else sched)
                  (initGrid ws (unat (getBlockSharedExternMemSizeBytes (blockKernels ws) (gl, uiMult2))
                                  div sizeofUint32) uninit gl) = Inr g
              \<and> contexts g = allContexts ws \<and> global g = r
              \<and> (\<forall>b<getSize_Grid_Blocks_Linear ws. \<forall>i<getSize_Block_Kernels_Linear ws.
                    pc (units (blocks g ! b) ! i) = L_Done)))
   \<and> (rendezvous backend (getSize_Block_Kernels_Linear ws)
        \<and> getSize_Block_Kernels_Linear ws < 2 ^ 32 \<and> getSize_Grid_Blocks_Linear ws \<le> 2 ^ 32
        \<and> getSize_Grid_Blocks_Linear ws \<le> length gl \<longrightarrow>
        (\<exists>more r. execute backend k ws gl uiMult2 uninit (sched @ more) = Some (Inr r)))
   \<and> prodVec \<lparr>vx = 4, vy = 4, vz = 2\<rparr> = 32
   \<and> map (linearize \<lparr>vx = 4, vy = 4, vz = 2\<rparr>) (coords \<lparr>vx = 4, vy = 4, vz = 2\<rparr>) = [0..<32]"
proof -
  let ?G = "getSize_Grid_Blocks_Linear ws" and ?N = "getSize_Block_Kernels_Linear ws"
  have ctx: "contexts g = allContexts ws"
    if "runSchedule backend k ws uiMult2 sched' (initGrid ws cells' uninit gl) = Inr g"
    for g sched' cells'
    using structInv_run [OF structInv_init that] by (simp add: structInv_def)
  have start: "\<forall>b<?G. \<forall>i<?N. pc (units (blocks (initGrid ws cells uninit gl) ! b) ! i) = L_Fill"
    using initGrid_Fill by blast
  have reached: "contexts g = allContexts ws
        \<and> length (blocks g) = ?G
        \<and> (\<forall>b<?G. length (units (blocks g ! b)) = ?N)
        \<and> (\<forall>pre post g1. sched = pre @ post
               \<and> runSchedule backend k ws uiMult2 pre (initGrid ws cells uninit gl) = Inr g1 \<longrightarrow>
             (\<forall>b i. labelRank (pc (units (blocks g1 ! b) ! i))
                       \<le> labelRank (pc (units (blocks g ! b) ! i))))
        \<and> (\<forall>b i g'. stepUnit backend k ws uiMult2 g (b, i) = Inr g' \<longrightarrow>
             g' = g \<or>
             (b < ?G \<and> i < ?N
              \<and> labelRank (pc (units (blocks g ! b) ! i))
                   < labelRank (pc (units (blocks g' ! b) ! i))
              \<and> (\<forall>b' i'. (b', i') \<noteq> (b, i) \<longrightarrow>
                    units (blocks g' ! b') ! i' = units (blocks g ! b') ! i')))"
    if run: "runSchedule backend k ws uiMult2 sched (initGrid ws cells uninit gl) = Inr g" for g
  proof -
    note c = ctx [OF run]
    note l = contexts_lengths [OF c]
    have mono: "labelRank (pc (units (blocks g1 ! b) ! i)) \<le> labelRank (pc (units (blocks g ! b) ! i))"
      if "sched = pre @ post \<and>
          runSchedule backend k ws uiMult2 pre (initGrid ws cells uninit gl) = Inr g1"
      for pre post g1 b i
    proof -
      from that run have "runSchedule backend k ws uiMult2 post g1 = Inr g"
        by (simp add: runSchedule_append)
      then show ?thesis by (rule runSchedule_rank_mono)
    qed
    have step: "g' = g \<or>
             (b < ?G \<and> i < ?N
              \<and> labelRank (pc (units (blocks g ! b) ! i))
                   < labelRank (pc (units (blocks g' ! b) ! i))
              \<and> (\<forall>b' i'. (b', i') \<noteq> (b, i) \<longrightarrow>
                    units (blocks g' ! b') ! i' = units (blocks g ! b') ! i'))"
      if s: "stepUnit backend k ws uiMult2 g (b, i) = Inr g'" for b i g'
      using stepUnit_pass [OF s]
    proof
      assume "g' = g"
      then show ?thesis by simp
    next
      assume a: "b < length (blocks g) \<and> i < length (units (blocks g ! b))
        \<and> labelRank (pc (units (blocks g ! b) ! i)) < labelRank (pc (units (blocks g' ! b) ! i))
        \<and> (\<forall>b' i'. (b', i') \<noteq> (b, i) \<longrightarrow>
             units (blocks g' ! b') ! i' = units (blocks g ! b') ! i')"
      then have b: "b < ?G" using l(1) by simp
      with a l(2) [OF b] have "i < ?N" by simp
      with a b show ?thesis by blast
    qed
    from c l(1) l(2) mono step show ?thesis by blast
  qed
  have ex: "\<exists>g. runSchedule backend k ws uiMult2
                  (if backend = AccSerial then serialSchedule ws else sched)
                  (initGrid ws (unat (getBlockSharedExternMemSizeBytes (blockKernels ws) (gl, uiMult2))
                                  div sizeofUint32) uninit gl) = Inr g
              \<and> contexts g = allContexts ws \<and> global g = r
              \<and> (\<forall>b<?G. \<forall>i<?N. pc (units (blocks g ! b) ! i) = L_Done)"
    if e: "execute backend k ws gl uiMult2 uninit sched = Some (Inr r)" for r
  proof -
    let ?g0 = "initGrid ws (unat (getBlockSharedExternMemSizeBytes (blockKernels ws) (gl, uiMult2))
                 div sizeofUint32) uninit gl"
    let ?order = "if backend = AccSerial then serialSchedule ws else sched"
    from e obtain g where r: "runSchedule backend k ws uiMult2 ?order ?g0 = Inr g"
      and d: "allDone g" and gl: "global g = r"
      by (auto simp: execute_def Let_def split: sum.splits if_splits)
    note c = ctx [OF r]
    note l = contexts_lengths [OF c]
    have "pc (units (blocks g ! b) ! i) = L_Done" if "b < ?G" "i < ?N" for b i
      using allDone_D [OF d, of b i] that l(1) l(2) [OF that(1)] by simp
    with r c gl show ?thesis by blast
  qed
  have ret: "\<exists>more r. execute backend k ws gl uiMult2 uninit (sched @ more) = Some (Inr r)"
    if "rendezvous backend ?N \<and> ?N < 2 ^ 32 \<and> ?G \<le> 2 ^ 32 \<and> ?G \<le> length gl"
  proof -
    from that have rv: "rendezvous backend ?N" and N: "?N < 2 ^ 32" and G: "?G \<le> 2 ^ 32"
      and fit: "?G \<le> length gl" by simp_all
    from execute_can_return [OF N G fit rv, of k uiMult2 uninit sched] show ?thesis by blast
  qed
  have p: "prodVec \<lparr>vx = 4, vy = 4, vz = 2\<rparr> = 32" by (simp add: prodVec_def)
  from map_linearize_coords [of "\<lparr>vx = 4, vy = 4, vz = 2\<rparr>"] p
  have lin: "map (linearize \<lparr>vx = 4, vy = 4, vz = 2\<rparr>) (coords \<lparr>vx = 4, vy = 4, vz = 2\<rparr>) = [0..<32]"
    by simp
  have reached': "\<forall>g. runSchedule backend k ws uiMult2 sched (initGrid ws cells uninit gl) = Inr g \<longrightarrow>
          contexts g = allContexts ws
        \<and> length (blocks g) = ?G
        \<and> (\<forall>b<?G. length (units (blocks g ! b)) = ?N)
        \<and> (\<forall>pre post g1. sched = pre @ post
               \<and> runSchedule backend k ws uiMult2 pre (initGrid ws cells uninit gl) = Inr g1 \<longrightarrow>
             (\<forall>b i. labelRank (pc (units (blocks g1 ! b) ! i))
                       \<le> labelRank (pc (units (blocks g ! b) ! i))))
        \<and> (\<forall>b i g'. stepUnit backend k ws uiMult2 g (b, i) = Inr g' \<longrightarrow>
             g' = g \<or>
             (b < ?G \<and> i < ?N
              \<and> labelRank (pc (units (blocks g ! b) ! i))
                   < labelRank (pc (units (blocks g' ! b) ! i))
              \<and> (\<forall>b' i'. (b', i') \<noteq> (b, i) \<longrightarrow>
                    units (blocks g' ! b') ! i' = units (blocks g ! b') ! i')))"
    using reached by (intro allI impI)
  have ex': "\<forall>r. execute backend k ws gl uiMult2 uninit sched = Some (Inr r) \<longrightarrow>
          (\<exists>g. runSchedule backend k ws uiMult2
                  (if backend = AccSerial then serialSchedule ws else sched)
                  (initGrid ws (unat (getBlockSharedExternMemSizeBytes (blockKernels ws) (gl, uiMult2))
                                  div sizeofUint32) uninit gl) = Inr g
              \<and> contexts g = allContexts ws \<and> global g = r
              \<and> (\<forall>b<?G. \<forall>i<?N. pc (units (blocks g ! b) ! i) = L_Done))"
    using ex by (intro allI impI)
  have ret': "rendezvous backend ?N \<and> ?N < 2 ^ 32 \<and> ?G \<le> 2 ^ 32 \<and> ?G \<le> length gl \<longrightarrow>
        (\<exists>more r. execute backend k ws gl uiMult2 uninit (sched @ more) = Some (Inr r))"
    using ret by (intro impI)
  from distinct_coords [of ext] set_coords [of ext] length_coords [of ext]
    map_linearize_coords [of ext] distinct_allContexts [of ws] set_allContexts [of ws]
    start reached' ex' ret' p lin
  show ?thesis by (intro conjI)
qed

theorem units_enumerated_once_witness:
  "execute AccThreads \<lparr>TuiNumUselessWork = 100, m_uiMult = 42\<rparr>
     \<lparr>gridBlocks = \<lparr>vx = 2, vy = 1, vz = 1\<rparr>, blockKernels = \<lparr>vx = 1, vy = 2, vz = 1\<rparr>\<rparr>
     [0, 0] 5 (\<lambda>_ _. 7) (concat (replicate 12 [(1, 1), (0, 0), (1, 0), (0, 1)]))
     = Some (Inr [840, 840])
   \<and> (\<exists>g. runSchedule AccThreads \<lparr>TuiNumUselessWork = 100, m_uiMult = 42\<rparr>
             \<lparr>gridBlocks = \<lparr>vx = 2, vy = 1, vz = 1\<rparr>, blockKernels = \<lparr>vx = 1, vy = 2, vz = 1\<rparr>\<rparr> 5
             (concat (replicate 12 [(1, 1), (0, 0), (1, 0), (0, 1)]))
             (initGrid \<lparr>gridBlocks = \<lparr>vx = 2, vy = 1, vz = 1\<rparr>,
                        blockKernels = \<lparr>vx = 1, vy = 2, vz = 1\<rparr>\<rparr> 2 (\<lambda>_ _. 7) [0, 0]) = Inr g
          \<and> contexts g =
            [[\<lparr>blockCoordinate = \<lparr>vx = 0, vy = 0, vz = 0\<rparr>, unitCoordinate = \<lparr>vx = 0, vy = 0, vz = 0\<rparr>\<rparr>,
              \<lparr>blockCoordinate = \<lparr>vx = 0, vy = 0, vz = 0\<rparr>, unitCoordinate = \<lparr>vx = 0, vy = 1, vz = 0\<rparr>\<rparr>],
             [\<lparr>blockCoordinate = \<lparr>vx = 1, vy = 0, vz = 0\<rparr>, unitCoordinate = \<lparr>vx = 0, vy = 0, vz = 0\<rparr>\<rparr>,
              \<lparr>blockCoordinate = \<lparr>vx = 1, vy = 0, vz = 0\<rparr>, unitCoordinate = \<lparr>vx = 0, vy = 1, vz = 0\<rparr>\<rparr>]]
          \<and> global g = [840, 840]
          \<and> (\<forall>b<2. \<forall>i<2. pc (units (blocks g ! b) ! i) = L_Done))"
proof -
  let ?ws = "\<lparr>gridBlocks = \<lparr>vx = 2, vy = 1, vz = 1\<rparr>, blockKernels = \<lparr>vx = 1, vy = 2, vz = 1\<rparr>\<rparr>"
  let ?k = "\<lparr>TuiNumUselessWork = 100, m_uiMult = 42\<rparr>"
  let ?s = "concat (replicate 12 [(1, 1), (0, 0), (1, 0), (0, 1)]) :: (nat \<times> nat) list"
  have n: "getSize_Block_Kernels_Linear ?ws = 2" "getSize_Grid_Blocks_Linear ?ws = 2"
    by (simp_all add: getSize_Block_Kernels_Linear_def getSize_Grid_Blocks_Linear_def prodVec_def)
  have e: "execute AccThreads ?k ?ws [0, 0] 5 (\<lambda>_ _. 7) ?s = Some (Inr [840, 840])"
    by code_simp
  have a: "allContexts ?ws =
            [[\<lparr>blockCoordinate = \<lparr>vx = 0, vy = 0, vz = 0\<rparr>, unitCoordinate = \<lparr>vx = 0, vy = 0, vz = 0\<rparr>\<rparr>,
              \<lparr>blockCoordinate = \<lparr>vx = 0, vy = 0, vz = 0\<rparr>, unitCoordinate = \<lparr>vx = 0, vy = 1, vz = 0\<rparr>\<rparr>],
             [\<lparr>blockCoordinate = \<lparr>vx = 1, vy = 0, vz = 0\<rparr>, unitCoordinate = \<lparr>vx = 0, vy = 0, vz = 0\<rparr>\<rparr>,
              \<lparr>blockCoordinate = \<lparr>vx = 1, vy = 0, vz = 0\<rparr>, unitCoordinate = \<lparr>vx = 0, vy = 1, vz = 0\<rparr>\<rparr>]]"
    by code_simp
  have cells: "unat (getBlockSharedExternMemSizeBytes (blockKernels ?ws) ([0, 0 :: u32], 5 :: u32))
                 div sizeofUint32 = 2"
    by code_simp
  from units_enumerated_once [where ext = "\<lparr>vx = 4, vy = 4, vz = 2\<rparr>" and ws = ?ws
      and backend = AccThreads and k = ?k and ?uiMult2.0 = 5 and sched = ?s and cells = 2
      and uninit = "\<lambda>_ _. 7" and gl = "[0, 0]"]
  have "\<forall>r. execute AccThreads ?k ?ws [0, 0] 5 (\<lambda>_ _. 7) ?s = Some (Inr r) \<longrightarrow>
          (\<exists>g. runSchedule AccThreads ?k ?ws 5
                  (if AccThreads = AccSerial then serialSchedule ?ws else ?s)
                  (initGrid ?ws (unat (getBlockSharedExternMemSizeBytes (blockKernels ?ws)
                                         ([0, 0 :: u32], 5 :: u32))
                                  div sizeofUint32) (\<lambda>_ _. 7) [0, 0]) = Inr g
              \<and> contexts g = allContexts ?ws \<and> global g = r
              \<and> (\<forall>b<getSize_Grid_Blocks_Linear ?ws. \<forall>i<getSize_Block_Kernels_Linear ?ws.
                    pc (units (blocks g ! b) ! i) = L_Done))"
    by (elim conjE)
  from this [THEN spec [where x = "[840, 840]"], THEN mp, OF e]
  obtain g where r0: "runSchedule AccThreads ?k ?ws 5
                  (if AccThreads = AccSerial then serialSchedule ?ws else ?s)
                  (initGrid ?ws (unat (getBlockSharedExternMemSizeBytes (blockKernels ?ws)
                                         ([0, 0 :: u32], 5 :: u32))
                                  div sizeofUint32) (\<lambda>_ _. 7) [0, 0]) = Inr g"
    and c: "contexts g = allContexts ?ws" and gl: "global g = [840, 840]"
    and d0: "\<forall>b<getSize_Grid_Blocks_Linear ?ws. \<forall>i<getSize_Block_Kernels_Linear ?ws.
                    pc (units (blocks g ! b) ! i) = L_Done"
    by (elim exE conjE)
  from r0 have r: "runSchedule AccThreads ?k ?ws 5 ?s (initGrid ?ws 2 (\<lambda>_ _. 7) [0, 0]) = Inr g"
    unfolding cells by simp
  from d0 have d: "\<forall>b<2. \<forall>i<2. pc (units (blocks g ! b) ! i) = L_Done" unfolding n .
  from r c [unfolded a] gl d
  have "\<exists>g. runSchedule AccThreads ?k ?ws 5 ?s (initGrid ?ws 2 (\<lambda>_ _. 7) [0, 0]) = Inr g
          \<and> contexts g =
            [[\<lparr>blockCoordinate = \<lparr>vx = 0, vy = 0, vz = 0\<rparr>, unitCoordinate = \<lparr>vx = 0, vy = 0, vz = 0\<rparr>\<rparr>,
              \<lparr>blockCoordinate = \<lparr>vx = 0, vy = 0, vz = 0\<rparr>, unitCoordinate = \<lparr>vx = 0, vy = 1, vz = 0\<rparr>\<rparr>],
             [\<lparr>blockCoordinate = \<lparr>vx = 1, vy = 0, vz = 0\<rparr>, unitCoordinate = \<lparr>vx = 0, vy = 0, vz = 0\<rparr>\<rparr>,
              \<lparr>blockCoordinate = \<lparr>vx = 1, vy = 0, vz = 0\<rparr>, unitCoordinate = \<lparr>vx = 0, vy = 1, vz = 0\<rparr>\<rparr>]]
          \<and> global g = [840, 840]
          \<and> (\<forall>b<2. \<forall>i<2. pc (units (blocks g ! b) ! i) = L_Done)"
    by (intro exI [of _ g] conjI)
  with e show ?thesis by (rule conjI)
qed

section \<open>Errors\<close>










section \<open>The useless work cancels\<close>

lemma unat_iSum1: "unat (iSum1 W idx) = (unat idx + 1 + (\<Sum>k = 0..<unat W. k)) mod 2 ^ 32"
proof -
  have "unat (iSum1 W idx) = unat (of_nat (unat idx + 1 + (\<Sum>k = 0..<unat W. k)) :: u32)"
    by (simp add: iSum1_closed uselessSum_def add_ac)
  then show ?thesis by (simp only: unat_of_nat) simp
qed

lemma uint_iSum2:
  "uint (iSum2 W idx) = (int (unat idx) - int (\<Sum>k = 0..<unat W. k)) mod 2 ^ 32"
proof -
  define S where "S = (\<Sum>k = 0..<unat W. k)"
  have "uint (of_nat S :: u32) = int (S mod 2 ^ 32)"
    by (simp only: uint_nat unat_of_nat) simp
  then have s: "uint (of_nat S :: u32) = int S mod 2 ^ 32" by (simp add: zmod_int)
  have "iSum2 W idx = idx - of_nat S" by (simp add: iSum2_closed uselessSum_def S_def)
  then have "uint (iSum2 W idx) = (uint idx - uint (of_nat S :: u32)) mod 2 ^ 32"
    by (simp add: uint_word_ariths)
  also have "\<dots> = (uint idx - int S) mod 2 ^ 32"
    unfolding s by (simp add: mod_diff_right_eq)
  finally show ?thesis by (simp only: S_def uint_nat)
qed

lemma iSum_cancel: "iSum1 W j + iSum2 W idx = j + 1 + idx"
  by (simp add: iSum1_closed iSum2_closed)

lemma iSum_mirror:
  assumes "i < N"
  shows "iSum1 W (of_nat (N - 1 - i)) + iSum2 W (of_nat i) = (of_nat N :: u32)"
proof -
  have "iSum1 W (of_nat (N - 1 - i)) + iSum2 W (of_nat i)
          = (of_nat (N - 1 - i + 1 + i) :: u32)"
    by (simp add: iSum_cancel)
  also have "N - 1 - i + 1 + i = N" using assms by simp
  finally show ?thesis .
qed

lemma expectedGlobal_W:
  "expectedGlobal ws \<lparr>TuiNumUselessWork = W, m_uiMult = m\<rparr> uiMult2 gl
     = expectedGlobal ws \<lparr>TuiNumUselessWork = W', m_uiMult = m\<rparr> uiMult2 gl"
  by (simp add: expectedGlobal_def outValue_def)

text \<open>
  C9: for every value \<open>W\<close> of \<^verbatim>\<open>TuiNumUselessWork\<close> and every index: \<^verbatim>\<open>iSum1\<close> is the index
  plus 1 plus \<open>0 + ... + (W - 1)\<close> modulo \<open>2 ^ 32\<close>, \<^verbatim>\<open>iSum2\<close> is the index minus that sum
  modulo \<open>2 ^ 32\<close>, wrapping around when the index is less than the sum as a 32-bit value,
  and the \<^verbatim>\<open>iSum1\<close> of one unit plus the \<^verbatim>\<open>iSum2\<close> of another is the sum of their indices
  plus 1, so the number of units for a unit and its mirror. Where the barrier holds the
  units of a block back until all have arrived (every backend but the sequential one, and
  the sequential one for blocks of one unit), in every state reached under either value
  of \<^verbatim>\<open>TuiNumUselessWork\<close> the cells of a block whose second barrier a unit has passed
  hold the values of C2, in which \<open>W\<close> does not occur; \<open>execute\<close> returns under a long enough
  schedule, and what it returns for \<open>W\<close> is what it returns for any \<open>W'\<close>.
\<close>

theorem useless_work_cancels:
  assumes rv: "rendezvous backend (getSize_Block_Kernels_Linear ws)"
    and N: "getSize_Block_Kernels_Linear ws < 2 ^ 32"
    and G: "getSize_Grid_Blocks_Linear ws \<le> 2 ^ 32"
    and fit: "getSize_Grid_Blocks_Linear ws \<le> length gl"
  shows "unat (iSum1 W idx) = (unat idx + 1 + (\<Sum>k = 0..<unat W. k)) mod 2 ^ 32
   \<and> uint (iSum2 W idx) = (int (unat idx) - int (\<Sum>k = 0..<unat W. k)) mod 2 ^ 32
   \<and> (unat idx < unat (uselessSum W) \<longrightarrow>
        unat (iSum2 W idx) = 2 ^ 32 + unat idx - unat (uselessSum W))
   \<and> iSum1 W j + iSum2 W idx = j + 1 + idx
   \<and> (\<forall>i<getSize_Block_Kernels_Linear ws.
        iSum1 W (of_nat (getSize_Block_Kernels_Linear ws - 1 - i)) + iSum2 W (of_nat i)
          = of_nat (getSize_Block_Kernels_Linear ws))
   \<and> (\<forall>V \<in> {W, W'}. \<exists>g.
        runSchedule backend \<lparr>TuiNumUselessWork = V, m_uiMult = m\<rparr> ws uiMult2 sched
          (initGrid ws (getSize_Block_Kernels_Linear ws) uninit gl) = Inr g
        \<and> (\<forall>b i. b < getSize_Grid_Blocks_Linear ws \<and> i < getSize_Block_Kernels_Linear ws
               \<and> 5 \<le> labelRank (pc (units (blocks g ! b) ! i)) \<longrightarrow>
             (\<forall>j. 0 < j \<and> j < getSize_Block_Kernels_Linear ws \<longrightarrow>
                  shared (blocks g ! b) ! j = of_nat (getSize_Block_Kernels_Linear ws))
             \<and> shared (blocks g ! b) ! 0 =
                 of_nat (Suc (card (doneAdds (getSize_Block_Kernels_Linear ws) (units (blocks g ! b)))))
                   * of_nat (getSize_Block_Kernels_Linear ws)))
   \<and> (\<exists>more. execute backend \<lparr>TuiNumUselessWork = W, m_uiMult = m\<rparr> ws gl uiMult2 uninit
                 (sched @ more)
        = Some (Inr (expectedGlobal ws \<lparr>TuiNumUselessWork = W', m_uiMult = m\<rparr> uiMult2 gl)))
   \<and> (\<forall>x x'. execute backend \<lparr>TuiNumUselessWork = W, m_uiMult = m\<rparr> ws gl uiMult2 uninit sched
                 = Some x
             \<and> execute backend \<lparr>TuiNumUselessWork = W', m_uiMult = m\<rparr> ws gl uiMult2 uninit' sched'
                 = Some x'
        \<longrightarrow> x = x')"
proof -
  let ?N = "getSize_Block_Kernels_Linear ws"
  have cells: "\<exists>g.
        runSchedule backend \<lparr>TuiNumUselessWork = V, m_uiMult = m\<rparr> ws uiMult2 sched
          (initGrid ws ?N uninit gl) = Inr g
        \<and> (\<forall>b i. b < getSize_Grid_Blocks_Linear ws \<and> i < ?N
               \<and> 5 \<le> labelRank (pc (units (blocks g ! b) ! i)) \<longrightarrow>
             (\<forall>j. 0 < j \<and> j < ?N \<longrightarrow> shared (blocks g ! b) ! j = of_nat ?N)
             \<and> shared (blocks g ! b) ! 0 =
                 of_nat (Suc (card (doneAdds ?N (units (blocks g ! b))))) * of_nat ?N)" for V
    using reached_cells [OF rv N G fit, of "\<lparr>TuiNumUselessWork = V, m_uiMult = m\<rparr>" uiMult2 sched uninit]
    by blast
  then have both: "\<forall>V \<in> {W, W'}. \<exists>g.
        runSchedule backend \<lparr>TuiNumUselessWork = V, m_uiMult = m\<rparr> ws uiMult2 sched
          (initGrid ws ?N uninit gl) = Inr g
        \<and> (\<forall>b i. b < getSize_Grid_Blocks_Linear ws \<and> i < ?N
               \<and> 5 \<le> labelRank (pc (units (blocks g ! b) ! i)) \<longrightarrow>
             (\<forall>j. 0 < j \<and> j < ?N \<longrightarrow> shared (blocks g ! b) ! j = of_nat ?N)
             \<and> shared (blocks g ! b) ! 0 =
                 of_nat (Suc (card (doneAdds ?N (units (blocks g ! b))))) * of_nat ?N)"
    by (intro ballI)
  have ret: "\<exists>more. execute backend \<lparr>TuiNumUselessWork = W, m_uiMult = m\<rparr> ws gl uiMult2 uninit
                 (sched @ more)
        = Some (Inr (expectedGlobal ws \<lparr>TuiNumUselessWork = W', m_uiMult = m\<rparr> uiMult2 gl))"
    using execute_can_return [OF N G fit rv, of "\<lparr>TuiNumUselessWork = W, m_uiMult = m\<rparr>" uiMult2
        uninit sched]
    by (simp only: expectedGlobal_W [of ws W m uiMult2 gl W'])
  have same: "x = x'"
    if "execute backend \<lparr>TuiNumUselessWork = W, m_uiMult = m\<rparr> ws gl uiMult2 uninit sched = Some x
      \<and> execute backend \<lparr>TuiNumUselessWork = W', m_uiMult = m\<rparr> ws gl uiMult2 uninit' sched' = Some x'"
    for x x'
  proof -
    from that execute_rendezvous [OF N G fit rv, of "\<lparr>TuiNumUselessWork = W, m_uiMult = m\<rparr>" uiMult2
        uninit sched]
    have "x = Inr (expectedGlobal ws \<lparr>TuiNumUselessWork = W, m_uiMult = m\<rparr> uiMult2 gl)" by auto
    moreover from that execute_rendezvous [OF N G fit rv, of "\<lparr>TuiNumUselessWork = W', m_uiMult = m\<rparr>"
        uiMult2 uninit' sched']
    have "x' = Inr (expectedGlobal ws \<lparr>TuiNumUselessWork = W', m_uiMult = m\<rparr> uiMult2 gl)" by auto
    ultimately show ?thesis by (simp only: expectedGlobal_W [of ws W m uiMult2 gl W'])
  qed
  have mir: "\<forall>i<?N. iSum1 W (of_nat (?N - 1 - i)) + iSum2 W (of_nat i) = of_nat ?N"
    using iSum_mirror by blast
  have wrap: "unat idx < unat (uselessSum W) \<longrightarrow>
        unat (iSum2 W idx) = 2 ^ 32 + unat idx - unat (uselessSum W)"
    using iSum2_wraps by blast
  from same have same': "\<forall>x x'.
      execute backend \<lparr>TuiNumUselessWork = W, m_uiMult = m\<rparr> ws gl uiMult2 uninit sched = Some x
      \<and> execute backend \<lparr>TuiNumUselessWork = W', m_uiMult = m\<rparr> ws gl uiMult2 uninit' sched' = Some x'
      \<longrightarrow> x = x'"
    by blast
  from unat_iSum1 [of W idx] uint_iSum2 [of W idx] wrap iSum_cancel [of W j idx] mir both ret same'
  show ?thesis by (intro conjI)
qed

theorem useless_work_cancels_witness:
  "rendezvous AccThreads
     (getSize_Block_Kernels_Linear
        \<lparr>gridBlocks = \<lparr>vx = 1, vy = 1, vz = 1\<rparr>, blockKernels = \<lparr>vx = 2, vy = 1, vz = 1\<rparr>\<rparr>)
   \<and> unat (iSum1 100 1) = 4952 \<and> unat (iSum2 100 0) = 4294962346
   \<and> iSum1 100 1 + iSum2 100 0 = 2
   \<and> execute AccThreads \<lparr>TuiNumUselessWork = 100, m_uiMult = 42\<rparr>
        \<lparr>gridBlocks = \<lparr>vx = 1, vy = 1, vz = 1\<rparr>, blockKernels = \<lparr>vx = 2, vy = 1, vz = 1\<rparr>\<rparr>
        [0] 5 (\<lambda>_ _. 7) (concat (replicate 12 [(0, 0), (0, 1)])) = Some (Inr [840])
   \<and> execute AccThreads \<lparr>TuiNumUselessWork = 3, m_uiMult = 42\<rparr>
        \<lparr>gridBlocks = \<lparr>vx = 1, vy = 1, vz = 1\<rparr>, blockKernels = \<lparr>vx = 2, vy = 1, vz = 1\<rparr>\<rparr>
        [0] 5 (\<lambda>_ _. 9) (concat (replicate 12 [(0, 1), (0, 0)])) = Some (Inr [840])"
proof -
  let ?ws = "\<lparr>gridBlocks = \<lparr>vx = 1, vy = 1, vz = 1\<rparr>, blockKernels = \<lparr>vx = 2, vy = 1, vz = 1\<rparr>\<rparr>"
  let ?s = "concat (replicate 12 [(0, 0), (0, 1)]) :: (nat \<times> nat) list"
  let ?s' = "concat (replicate 12 [(0, 1), (0, 0)]) :: (nat \<times> nat) list"
  have n: "getSize_Block_Kernels_Linear ?ws = 2" "getSize_Grid_Blocks_Linear ?ws = 1"
    by (simp_all add: getSize_Block_Kernels_Linear_def getSize_Grid_Blocks_Linear_def prodVec_def)
  have rv: "rendezvous AccThreads (getSize_Block_Kernels_Linear ?ws)"
    unfolding n by (simp add: rendezvous_def)
  have N: "getSize_Block_Kernels_Linear ?ws < 2 ^ 32" and G: "getSize_Grid_Blocks_Linear ?ws \<le> 2 ^ 32"
    and fit: "getSize_Grid_Blocks_Linear ?ws \<le> length [0 :: u32]"
    unfolding n by simp_all
  note t = useless_work_cancels [OF rv N G fit, where W = 100 and W' = 3 and m = 42
      and ?uiMult2.0 = 5 and uninit = "\<lambda>_ _. 7" and uninit' = "\<lambda>_ _. 9" and sched = ?s
      and sched' = ?s' and j = 1]
  have u: "uselessSum 100 = 4950" by (simp add: uselessSum_gauss)
  from t [of 1] have "unat (iSum1 100 1) = (unat (1 :: u32) + 1 + (\<Sum>k = 0..<unat (100 :: u32). k)) mod 2 ^ 32"
    by (rule conjunct1)
  then have a: "unat (iSum1 100 1) = 4952" by (simp add: Sum_Ico_nat)
  from t [of 0] have "unat (0 :: u32) < unat (uselessSum 100) \<longrightarrow>
        unat (iSum2 100 0) = 2 ^ 32 + unat (0 :: u32) - unat (uselessSum 100)"
    by (elim conjE)
  then have b: "unat (iSum2 100 0) = 4294962346" unfolding u by simp
  from t [of 0] have "iSum1 100 1 + iSum2 100 0 = (1 :: u32) + 1 + 0" by (elim conjE)
  then have c: "iSum1 100 1 + iSum2 100 0 = 2" by simp
  have e1: "execute AccThreads \<lparr>TuiNumUselessWork = 100, m_uiMult = 42\<rparr> ?ws [0] 5 (\<lambda>_ _. 7) ?s
              = Some (Inr [840])"
    by code_simp
  have "execute AccThreads \<lparr>TuiNumUselessWork = 3, m_uiMult = 42\<rparr> ?ws [0] 5 (\<lambda>_ _. 9) ?s' \<noteq> None"
    by code_simp
  then obtain x' where
    e2: "execute AccThreads \<lparr>TuiNumUselessWork = 3, m_uiMult = 42\<rparr> ?ws [0] 5 (\<lambda>_ _. 9) ?s' = Some x'"
    by blast
  from t [of 0] have "\<forall>x x'.
      execute AccThreads \<lparr>TuiNumUselessWork = 100, m_uiMult = 42\<rparr> ?ws [0] 5 (\<lambda>_ _. 7) ?s = Some x
      \<and> execute AccThreads \<lparr>TuiNumUselessWork = 3, m_uiMult = 42\<rparr> ?ws [0] 5 (\<lambda>_ _. 9) ?s' = Some x'
      \<longrightarrow> x = x'"
    by (elim conjE)
  with e1 e2 have "Inr [840] = x'" by blast
  with e2 have e2': "execute AccThreads \<lparr>TuiNumUselessWork = 3, m_uiMult = 42\<rparr> ?ws [0] 5 (\<lambda>_ _. 9) ?s'
      = Some (Inr [840])"
    by simp
  from rv a b c e1 e2' show ?thesis by (intro conjI)
qed

section \<open>The shared-memory size query\<close>

text \<open>
  C6: the size query of \<^verbatim>\<open>ExampleAcceleratedKernel\<close> returns the product of the block
  extent times \<^verbatim>\<open>sizeof(std::uint32_t)\<close>, computed in \<^verbatim>\<open>std::size_t\<close>, for every block
  extent, and does not depend on the further arguments, whatever their types. Where the
  byte count is representable in \<^verbatim>\<open>std::size_t\<close> it is four bytes per unit, \<open>execute\<close>
  runs on the grid whose regions are sized by that one query, and every block of that
  grid has exactly one \<^verbatim>\<open>std::uint32_t\<close> cell per unit.
\<close>

theorem getBlockSharedExternMemSizeBytes_per_unit:
  "getBlockSharedExternMemSizeBytes v args = (of_nat (prodVec v) :: size_t) * of_nat sizeofUint32
   \<and> getBlockSharedExternMemSizeBytes v args = getBlockSharedExternMemSizeBytes v args'
   \<and> (prodVec (blockKernels ws) * sizeofUint32 < 2 ^ 64 \<longrightarrow>
        unat (getBlockSharedExternMemSizeBytes (blockKernels ws) args) div sizeofUint32
          = getSize_Block_Kernels_Linear ws
        \<and> execute backend k ws gl uiMult2 uninit sched =
            (case runSchedule backend k ws uiMult2
                    (if backend = AccSerial then serialSchedule ws else sched)
                    (initGrid ws (getSize_Block_Kernels_Linear ws) uninit gl) of
               Inl e \<Rightarrow> Some (Inl e)
             | Inr g \<Rightarrow> if allDone g then Some (Inr (global g)) else None)
        \<and> (\<forall>blk \<in> set (blocks (initGrid ws (getSize_Block_Kernels_Linear ws) uninit gl)).
              length (shared blk) = length (units blk)))"
proof (intro conjI impI)
  show "getBlockSharedExternMemSizeBytes v args = (of_nat (prodVec v) :: size_t) * of_nat sizeofUint32"
    by (simp add: getBlockSharedExternMemSizeBytes_def)
  show "getBlockSharedExternMemSizeBytes v args = getBlockSharedExternMemSizeBytes v args'"
    by (simp add: getBlockSharedExternMemSizeBytes_def)
next
  assume fits: "prodVec (blockKernels ws) * sizeofUint32 < 2 ^ 64"
  show "unat (getBlockSharedExternMemSizeBytes (blockKernels ws) args) div sizeofUint32
          = getSize_Block_Kernels_Linear ws"
    using unat_getBlockSharedExternMemSizeBytes [OF fits, of args]
    by (simp add: getSize_Block_Kernels_Linear_def sizeofUint32_def)
  show "execute backend k ws gl uiMult2 uninit sched =
            (case runSchedule backend k ws uiMult2
                    (if backend = AccSerial then serialSchedule ws else sched)
                    (initGrid ws (getSize_Block_Kernels_Linear ws) uninit gl) of
               Inl e \<Rightarrow> Some (Inl e)
             | Inr g \<Rightarrow> if allDone g then Some (Inr (global g)) else None)"
    using execute_cells [OF fits] by (simp add: getSize_Block_Kernels_Linear_def)
  show "\<forall>blk \<in> set (blocks (initGrid ws (getSize_Block_Kernels_Linear ws) uninit gl)).
              length (shared blk) = length (units blk)"
    by (auto simp: initGrid_def length_initBlock getSize_Block_Kernels_Linear_def)
qed

theorem getBlockSharedExternMemSizeBytes_per_unit_witness:
  "getBlockSharedExternMemSizeBytes \<lparr>vx = 4, vy = 4, vz = 2\<rparr> ([0, 0 :: u32], 5 :: u32) = 128
   \<and> getBlockSharedExternMemSizeBytes \<lparr>vx = 4, vy = 4, vz = 2\<rparr> ([0, 0 :: u32], 5 :: u32)
       = getBlockSharedExternMemSizeBytes \<lparr>vx = 4, vy = 4, vz = 2\<rparr> True
   \<and> unat (getBlockSharedExternMemSizeBytes \<lparr>vx = 4, vy = 4, vz = 2\<rparr> ([0, 0 :: u32], 5 :: u32))
         div sizeofUint32 = 32"
proof -
  let ?v = "\<lparr>vx = 4, vy = 4, vz = 2\<rparr>"
  let ?ws = "\<lparr>gridBlocks = \<lparr>vx = 1, vy = 1, vz = 1\<rparr>, blockKernels = ?v\<rparr>"
  note t = getBlockSharedExternMemSizeBytes_per_unit
    [where v = ?v and args = "([0, 0 :: u32], 5 :: u32)" and args' = True and ws = ?ws
       and backend = AccThreads and k = "\<lparr>TuiNumUselessWork = 100, m_uiMult = 42\<rparr>"
       and gl = "[]" and ?uiMult2.0 = 5 and uninit = "\<lambda>_ _. 0" and sched = "[]"]
  have fits: "prodVec (blockKernels ?ws) * sizeofUint32 < 2 ^ 64"
    by (simp add: prodVec_def sizeofUint32_def)
  from t have a: "getBlockSharedExternMemSizeBytes ?v ([0, 0 :: u32], 5 :: u32)
                    = (of_nat (prodVec ?v) :: size_t) * of_nat sizeofUint32"
    by (rule conjunct1)
  from t have b: "getBlockSharedExternMemSizeBytes ?v ([0, 0 :: u32], 5 :: u32)
                    = getBlockSharedExternMemSizeBytes ?v True"
    by (rule conjunct2 [THEN conjunct1])
  from t fits have c: "unat (getBlockSharedExternMemSizeBytes (blockKernels ?ws)
                          ([0, 0 :: u32], 5 :: u32)) div sizeofUint32
                         = getSize_Block_Kernels_Linear ?ws"
    by blast
  from a have a': "getBlockSharedExternMemSizeBytes ?v ([0, 0 :: u32], 5 :: u32) = 128"
    by (simp add: prodVec_def sizeofUint32_def)
  from c have c': "unat (getBlockSharedExternMemSizeBytes ?v ([0, 0 :: u32], 5 :: u32))
                      div sizeofUint32 = 32"
    by (simp add: prodVec_def getSize_Block_Kernels_Linear_def)
  from a' b c' show ?thesis by blast
qed

section \<open>The memory round trip\<close>

text \<open>
  C5: a buffer allocated on the accelerator space, filled by a copy from a host buffer of
  the same size in bytes and copied back with the same size into a host buffer of that
  size, whatever that buffer held before: both copies succeed, the accelerator buffer
  holds the source's content after the first, and the destination holds the source's
  content after the second, its space and size unchanged. Copied back into the source
  buffer itself, the content is the original. The cells are of any type: bytes in
  particular.
\<close>

theorem memCopy_round_trip:
  assumes "memAlloc MemorySpaceAcc elemSize avail fresh uiSizeBytes = Inr acc0"
    and "sizeBytes host = uiSizeBytes" and "sizeBytes dst = uiSizeBytes"
  shows "\<exists>acc1 dst1. memCopy acc0 host uiSizeBytes = Inr acc1
           \<and> storage acc1 = storage host
           \<and> spaceTag acc1 = MemorySpaceAcc \<and> sizeBytes acc1 = uiSizeBytes
           \<and> memCopy dst acc1 uiSizeBytes = Inr dst1
           \<and> storage dst1 = storage host
           \<and> spaceTag dst1 = spaceTag dst \<and> sizeBytes dst1 = uiSizeBytes
           \<and> memCopy host acc1 uiSizeBytes = Inr host"
proof -
  from assms(1) have sz: "sizeBytes acc0 = uiSizeBytes" and sp: "spaceTag acc0 = MemorySpaceAcc"
    by (auto simp: memAlloc_def split: if_splits)
  let ?acc1 = "acc0\<lparr>storage := storage host\<rparr>"
  let ?dst1 = "dst\<lparr>storage := storage host\<rparr>"
  have c1: "memCopy acc0 host uiSizeBytes = Inr ?acc1"
    using sz assms(2) by (simp add: memCopy_def)
  have c2: "memCopy dst ?acc1 uiSizeBytes = Inr ?dst1"
    using sz assms(3) by (simp add: memCopy_def)
  have c3: "memCopy host ?acc1 uiSizeBytes = Inr host"
    using sz assms(2) by (simp add: memCopy_def)
  from c1 c2 c3 sz sp assms(3) show ?thesis by simp
qed

theorem memCopy_round_trip_witness:
  "memAlloc MemorySpaceAcc 1 16 (\<lambda>_. 7 :: 8 word) 3
     = Inr \<lparr>spaceTag = MemorySpaceAcc, sizeBytes = 3, storage = [7, 7, 7]\<rparr>
   \<and> (\<exists>acc1 dst1.
     memCopy \<lparr>spaceTag = MemorySpaceAcc, sizeBytes = 3, storage = [7, 7, 7 :: 8 word]\<rparr>
       \<lparr>spaceTag = MemorySpaceHost, sizeBytes = 3, storage = [1, 2, 3]\<rparr> 3 = Inr acc1
     \<and> storage acc1 = [1, 2, 3]
     \<and> memCopy \<lparr>spaceTag = MemorySpaceHost, sizeBytes = 3, storage = [9, 9, 9]\<rparr> acc1 3
         = Inr dst1
     \<and> dst1 = \<lparr>spaceTag = MemorySpaceHost, sizeBytes = 3, storage = [1, 2, 3]\<rparr>)"
proof -
  have a: "memAlloc MemorySpaceAcc 1 16 (\<lambda>_. 7 :: 8 word) 3
             = Inr \<lparr>spaceTag = MemorySpaceAcc, sizeBytes = 3, storage = [7, 7, 7]\<rparr>"
    by (simp add: memAlloc_def upt_rec)
  have b: "sizeBytes \<lparr>spaceTag = MemorySpaceHost, sizeBytes = 3, storage = [1, 2, 3 :: 8 word]\<rparr> = 3"
    by simp
  have c: "sizeBytes \<lparr>spaceTag = MemorySpaceHost, sizeBytes = 3, storage = [9, 9, 9 :: 8 word]\<rparr> = 3"
    by simp
  from memCopy_round_trip [OF a b c] obtain acc1 dst1 where
    "memCopy \<lparr>spaceTag = MemorySpaceAcc, sizeBytes = 3, storage = [7, 7, 7 :: 8 word]\<rparr>
       \<lparr>spaceTag = MemorySpaceHost, sizeBytes = 3, storage = [1, 2, 3]\<rparr> 3 = Inr acc1"
    "storage acc1 = [1, 2, 3]"
    "memCopy \<lparr>spaceTag = MemorySpaceHost, sizeBytes = 3, storage = [9, 9, 9]\<rparr> acc1 3 = Inr dst1"
    "storage dst1 = [1, 2, 3]" "spaceTag dst1 = MemorySpaceHost" "sizeBytes dst1 = 3"
    by auto
  moreover from this have "dst1 = \<lparr>spaceTag = MemorySpaceHost, sizeBytes = 3, storage = [1, 2, 3]\<rparr>"
    by (cases dst1) simp
  ultimately show ?thesis using a by blast
qed

section \<open>Device properties\<close>

text \<open>
  C8: a \<^verbatim>\<open>DevProps\<close> is its six fields and nothing else: the name, the multiprocessor
  count, the maximum number of kernels per block, the maximum block extent, the maximum
  grid extent and the global memory size; two records that agree on the six are equal, so
  there is no further field (no shared memory size, no clock frequency). Selecting a
  device changes none of the enumerated properties.
\<close>

theorem DevProps_six_fields:
  "p = \<lparr>m_sName = m_sName p,
        m_uiMultiProcessorCount = m_uiMultiProcessorCount p,
        m_uiBlockKernelsCountMax = m_uiBlockKernelsCountMax p,
        m_v3uiBlockKernelsExtentsMax = m_v3uiBlockKernelsExtentsMax p,
        m_v3uiGridBlocksExtentsMax = m_v3uiGridBlocksExtentsMax p,
        m_uiGlobalMemSizeBytes = m_uiGlobalMemSizeBytes p\<rparr>
   \<and> ((p :: DevProps) = q \<longleftrightarrow>
        m_sName p = m_sName q
        \<and> m_uiMultiProcessorCount p = m_uiMultiProcessorCount q
        \<and> m_uiBlockKernelsCountMax p = m_uiBlockKernelsCountMax q
        \<and> m_v3uiBlockKernelsExtentsMax p = m_v3uiBlockKernelsExtentsMax q
        \<and> m_v3uiGridBlocksExtentsMax p = m_v3uiGridBlocksExtentsMax q
        \<and> m_uiGlobalMemSizeBytes p = m_uiGlobalMemSizeBytes q)
   \<and> (case selectDevice r devId of
          Inl e \<Rightarrow> e = DeviceNotFound
        | Inr r' \<Rightarrow> enumerateDevices r' = enumerateDevices r)"
proof (intro conjI)
  show "p = \<lparr>m_sName = m_sName p,
        m_uiMultiProcessorCount = m_uiMultiProcessorCount p,
        m_uiBlockKernelsCountMax = m_uiBlockKernelsCountMax p,
        m_v3uiBlockKernelsExtentsMax = m_v3uiBlockKernelsExtentsMax p,
        m_v3uiGridBlocksExtentsMax = m_v3uiGridBlocksExtentsMax p,
        m_uiGlobalMemSizeBytes = m_uiGlobalMemSizeBytes p\<rparr>"
    by simp
  show "(p = q) \<longleftrightarrow>
        m_sName p = m_sName q
        \<and> m_uiMultiProcessorCount p = m_uiMultiProcessorCount q
        \<and> m_uiBlockKernelsCountMax p = m_uiBlockKernelsCountMax q
        \<and> m_v3uiBlockKernelsExtentsMax p = m_v3uiBlockKernelsExtentsMax q
        \<and> m_v3uiGridBlocksExtentsMax p = m_v3uiGridBlocksExtentsMax q
        \<and> m_uiGlobalMemSizeBytes p = m_uiGlobalMemSizeBytes q"
    by (cases p, cases q) auto
  show "case selectDevice r devId of
          Inl e \<Rightarrow> e = DeviceNotFound
        | Inr r' \<Rightarrow> enumerateDevices r' = enumerateDevices r"
    by (simp add: selectDevice_def enumerateDevices_def)
qed

end
